theory Spec2Isabelle
  imports Main "HOL-Library.AList"
begin

section \<open>Data model of \<open>exercises/graphs/graph_solution.py\<close>\<close>

text \<open>
  A Python \<open>dict\<close> keeps its keys in insertion order: storing under an existing key
  replaces the value in place, storing under a new key appends the entry. An association
  list with \<open>AList.update\<close> behaves the same way, \<open>map_of\<close> is the lookup and
  \<open>AList.delete\<close> removes a key. Vertices are values of an arbitrary type \<open>'v\<close>
  (Python's \<open>None\<close> is the \<open>None\<close> of an option type and never a vertex). Python
  integers are unbounded, hence \<open>int\<close>.

  The source raises plain \<open>Exception\<close> objects that differ in their message only; the
  model names them after the condition that raises them. \<open>AttributeError\<close> is what
  Python raises when the dynamically added field \<open>distance\<close> is read before it was set.
\<close>

datatype error = NotFoundError | EmptyGraphError | AttributeError

text \<open>Class \<open>DiGraph\<close> holds the single field \<open>_edges\<close>: vertex to adjacency list.\<close>

type_synonym 'v digraph = "('v \<times> 'v list) list"

text \<open>
  A method that mutates its object returns the outcome (\<open>Inl\<close> the exception raised,
  \<open>Inr\<close> the returned value) together with the object as the call leaves it, so that what
  an exception leaves behind is part of the model.
\<close>

definition DiGraph :: "'v digraph" where
  "DiGraph = []"

definition has_vertex :: "'v digraph \<Rightarrow> 'v \<Rightarrow> bool" where
  "has_vertex g vertex = (vertex \<in> set (map fst g))"

definition add_vertex :: "'v \<Rightarrow> 'v digraph \<Rightarrow> 'v digraph" where
  "add_vertex vertex g = (if \<not> has_vertex g vertex then AList.update vertex [] g else g)"

definition verteces :: "'v digraph \<Rightarrow> 'v set" where
  "verteces g = set (map fst g)"

definition add_edge :: "'v \<Rightarrow> 'v \<Rightarrow> 'v digraph \<Rightarrow> (error + unit) \<times> 'v digraph" where
  "add_edge vertex1 vertex2 g =
     (case map_of g vertex1 of
        None \<Rightarrow> (Inl NotFoundError, g)
      | Some targets \<Rightarrow>
          if \<not> has_vertex g vertex2 then (Inl NotFoundError, g)
          else if vertex2 \<notin> set targets
               then (Inr (), AList.update vertex1 (targets @ [vertex2]) g)
               else (Inr (), g))"

definition adj :: "'v digraph \<Rightarrow> 'v \<Rightarrow> error + 'v list" where
  "adj g vertex = (case map_of g vertex of None \<Rightarrow> Inl NotFoundError | Some targets \<Rightarrow> Inr targets)"

definition has_edge :: "'v digraph \<Rightarrow> 'v \<Rightarrow> 'v \<Rightarrow> error + bool" where
  "has_edge g source target =
     (if \<not> has_vertex g source then Inl NotFoundError
      else if \<not> has_vertex g target then Inl NotFoundError
      else (case map_of g source of None \<Rightarrow> Inl NotFoundError
            | Some targets \<Rightarrow> Inr (target \<in> set targets)))"

definition is_empty :: "'v digraph \<Rightarrow> bool" where
  "is_empty g = (length g = 0)"

text \<open>
  \<open>remove_vertex\<close> walks over \<open>self.verteces()\<close>, a set; every pass touches the list of
  its own \<open>source\<close> only, so the order of the walk does not matter and the model takes the
  order of the keys. \<open>list.remove\<close> deletes the first occurrence, which is \<open>remove1\<close>.
\<close>

definition strip_target :: "'v \<Rightarrow> 'v \<Rightarrow> 'v digraph \<Rightarrow> 'v digraph" where
  "strip_target vertex source g =
     (case map_of g source of
        None \<Rightarrow> g
      | Some targets \<Rightarrow>
          if vertex \<in> set targets then AList.update source (remove1 vertex targets) g else g)"

definition remove_vertex :: "'v \<Rightarrow> 'v digraph \<Rightarrow> (error + 'v list) \<times> 'v digraph" where
  "remove_vertex vertex g =
     (if \<not> has_vertex g vertex then (Inl NotFoundError, g)
      else let g' = fold (strip_target vertex) (map fst g) g
           in (case map_of g' vertex of
                 None \<Rightarrow> (Inl NotFoundError, g')
               | Some targets \<Rightarrow> (Inr targets, AList.delete vertex g')))"

text \<open>
  The invariant of a graph built through the methods of the class: the keys of the
  dictionary are distinct, no adjacency list holds a target twice, and every target is a
  registered vertex.
\<close>

definition wf_digraph :: "'v digraph \<Rightarrow> bool" where
  "wf_digraph g =
     (distinct (map fst g) \<and>
      list_all (\<lambda>(source, targets). distinct targets \<and> list_all (has_vertex g) targets) g)"

text \<open>
  \<open>__eq__\<close>: the \<open>isinstance\<close> test is the type of the second argument. The lookups
  \<open>self._edges[source]\<close> and \<open>other._edges[source]\<close> cannot raise once the vertex sets
  are equal; the model compares the results of both lookups as sets.
\<close>

definition digraph_eq :: "'v digraph \<Rightarrow> 'v digraph \<Rightarrow> bool" where
  "digraph_eq g other =
     (if verteces g \<noteq> verteces other then False
      else list_all (\<lambda>source. map_option set (map_of g source) = map_option set (map_of other source))
             (map fst g))"

text \<open>A caller that adds a list of edges, one \<open>add_edge\<close> call after the other.\<close>

fun add_edges :: "('v \<times> 'v) list \<Rightarrow> 'v digraph \<Rightarrow> (error + unit) \<times> 'v digraph" where
  "add_edges [] g = (Inr (), g)"
| "add_edges ((u, w) # es) g =
     (case add_edge u w g of
        (Inl e, g') \<Rightarrow> (Inl e, g')
      | (Inr _, g') \<Rightarrow> add_edges es g')"

definition has_self_loops :: "'v digraph \<Rightarrow> bool" where
  "has_self_loops g =
     list_ex (\<lambda>source. case map_of g source of None \<Rightarrow> False | Some targets \<Rightarrow> source \<in> set targets)
       (map fst g)"

text \<open>
  \<open>reverse\<close>: \<open>old_edges\<close> keeps the dictionary of the call, the new dictionary gets every
  old key with an empty list, and the two nested loops walk the entries of \<open>old_edges\<close>.
  An exception of \<open>add_edge\<close> leaves the graph as far as the loops came.
\<close>

fun reverse_targets :: "'v \<Rightarrow> 'v list \<Rightarrow> 'v digraph \<Rightarrow> (error + unit) \<times> 'v digraph" where
  "reverse_targets source [] g = (Inr (), g)"
| "reverse_targets source (target # targets) g =
     (case add_edge target source g of
        (Inl e, g') \<Rightarrow> (Inl e, g')
      | (Inr _, g') \<Rightarrow> reverse_targets source targets g')"

fun reverse_sources :: "'v digraph \<Rightarrow> 'v digraph \<Rightarrow> (error + unit) \<times> 'v digraph" where
  "reverse_sources [] g = (Inr (), g)"
| "reverse_sources ((source, targets) # old_edges) g =
     (case reverse_targets source targets g of
        (Inl e, g') \<Rightarrow> (Inl e, g')
      | (Inr _, g') \<Rightarrow> reverse_sources old_edges g')"

definition reverse :: "'v digraph \<Rightarrow> (error + unit) \<times> 'v digraph" where
  "reverse old_edges =
     reverse_sources old_edges (fold (\<lambda>v edges. AList.update v [] edges) (map fst old_edges) [])"

text \<open>
  The factory \<open>dag\<close>: the graph is local to the call, so an exception loses it. The slice
  \<open>verteces[i:]\<close> is \<open>drop i\<close>, empty once \<open>i\<close> reaches the length. The parameter \<open>verteces\<close> of the
  source is \<open>vertex_list\<close> here, the name being taken by the method of the class.
\<close>

fun dag_targets :: "'v \<Rightarrow> 'v list \<Rightarrow> 'v digraph \<Rightarrow> error + 'v digraph" where
  "dag_targets v [] g = Inr g"
| "dag_targets v (w # ws) g =
     (case add_edge v w g of
        (Inl e, g') \<Rightarrow> Inl e
      | (Inr _, g') \<Rightarrow> dag_targets v ws g')"

fun dag_sources :: "'v list \<Rightarrow> nat \<Rightarrow> 'v list \<Rightarrow> 'v digraph \<Rightarrow> error + 'v digraph" where
  "dag_sources vertex_list i [] g = Inr g"
| "dag_sources vertex_list i (v # vs) g =
     (case dag_targets v (drop i vertex_list) g of
        Inl e \<Rightarrow> Inl e
      | Inr g' \<Rightarrow> dag_sources vertex_list (i + 1) vs g')"

definition dag :: "'v list \<Rightarrow> error + 'v digraph" where
  "dag vertex_list =
     (let g = fold add_vertex vertex_list DiGraph
      in if length vertex_list > 1 then dag_sources vertex_list 1 vertex_list g else Inr g)"

section \<open>Visit logs\<close>

text \<open>
  \<open>VertexLog\<close> has four fields; \<open>distances\<close> adds a fifth one, \<open>distance\<close>, to the logs it
  touches, so the field is optional and \<open>None\<close> until it is assigned. The field \<open>vertex\<close> of
  the source is \<open>log_vertex\<close> here, \<open>vertex\<close> being the name of a variable in most methods.
\<close>

record 'v vertex_log =
  log_vertex :: 'v
  discovery_time :: int
  finish_time :: int
  parent :: "'v option"
  distance :: "int option"

definition VertexLog :: "'v \<Rightarrow> 'v vertex_log" where
  "VertexLog v =
     \<lparr>log_vertex = v, discovery_time = - 1, finish_time = - 1, parent = None, distance = None\<rparr>"

text \<open>Class \<open>Visit\<close> holds the single field \<open>_logs\<close>: vertex to log.\<close>

type_synonym 'v visit = "('v \<times> 'v vertex_log) list"

definition Visit :: "'v visit" where
  "Visit = []"

definition is_discovered :: "'v visit \<Rightarrow> 'v \<Rightarrow> bool" where
  "is_discovered visit vertex =
     (case map_of visit vertex of None \<Rightarrow> False | Some l \<Rightarrow> discovery_time l \<noteq> - 1)"

text \<open>
  \<open>log\<close> returns the log of the vertex and the visit, which has a fresh log for the vertex
  if it had none. The caller holds a reference to the log object inside the dictionary;
  an assignment to a field of that object is \<open>assign\<close>, which rewrites the entry of the
  vertex in place. No log is ever removed from a visit, so the entry is there.
\<close>

definition log :: "'v \<Rightarrow> 'v visit \<Rightarrow> 'v vertex_log \<times> 'v visit" where
  "log vertex visit =
     (case map_of visit vertex of
        None \<Rightarrow> (VertexLog vertex, AList.update vertex (VertexLog vertex) visit)
      | Some l \<Rightarrow> (l, visit))"

definition assign :: "'v \<Rightarrow> ('v vertex_log \<Rightarrow> 'v vertex_log) \<Rightarrow> 'v visit \<Rightarrow> 'v visit" where
  "assign vertex f visit =
     (case map_of visit vertex of
        None \<Rightarrow> visit
      | Some l \<Rightarrow> AList.update vertex (f l) visit)"

definition last_time :: "'v visit \<Rightarrow> int" where
  "last_time visit =
     fold (\<lambda>l max_time.
             let m = (if discovery_time l > max_time then discovery_time l else max_time)
             in if finish_time l > m then finish_time l else m)
       (map snd visit) 0"


section \<open>Depth first search\<close>

text \<open>
  \<open>dfs\<close> calls itself inside its loop over the neighbours and hands the same visit object
  down. The model threads the visit through both and returns it with the outcome, so the
  visit an exception leaves behind can be read off. The first argument bounds the depth of
  the recursion (the call stack); \<open>None\<close> stands for a run that needs a deeper stack.
  The statement \<open>source_log.discovery_time = visit.last_time() + 1\<close> runs after
  \<open>visit.log(source)\<close>, so the clock is read from the visit that holds the log already.
\<close>

fun dfs :: "nat \<Rightarrow> 'v digraph \<Rightarrow> 'v \<Rightarrow> 'v visit \<Rightarrow> ((error + unit) \<times> 'v visit) option"
  and dfs_neighbors ::
    "nat \<Rightarrow> 'v digraph \<Rightarrow> 'v \<Rightarrow> 'v list \<Rightarrow> 'v visit \<Rightarrow> ((error + unit) \<times> 'v visit) option"
  where
  "dfs 0 g source visit = None"
| "dfs (Suc n) g source visit =
     (if is_empty g then Some (Inl EmptyGraphError, visit)
      else
        let visit1 = snd (log source visit);
            visit2 = assign source (\<lambda>l. l\<lparr>discovery_time := last_time visit1 + 1\<rparr>) visit1
        in (case adj g source of
              Inl e \<Rightarrow> Some (Inl e, visit2)
            | Inr neighbors \<Rightarrow>
                (case dfs_neighbors n g source neighbors visit2 of
                   None \<Rightarrow> None
                 | Some (Inl e, visit3) \<Rightarrow> Some (Inl e, visit3)
                 | Some (Inr _, visit3) \<Rightarrow>
                     Some (Inr (),
                       assign source (\<lambda>l. l\<lparr>finish_time := last_time visit3 + 1\<rparr>) visit3))))"
| "dfs_neighbors n g source [] visit = Some (Inr (), visit)"
| "dfs_neighbors n g source (neighbor # neighbors) visit =
     (if \<not> is_discovered visit neighbor then
        let visit1 = assign neighbor (\<lambda>l. l\<lparr>parent := Some source\<rparr>) (snd (log neighbor visit))
        in (case dfs n g neighbor visit1 of
              None \<Rightarrow> None
            | Some (Inl e, visit2) \<Rightarrow> Some (Inl e, visit2)
            | Some (Inr _, visit2) \<Rightarrow> dfs_neighbors n g source neighbors visit2)
      else dfs_neighbors n g source neighbors visit)"

section \<open>Breadth first search\<close>

text \<open>
  The queue is a list: \<open>put\<close> appends, \<open>get\<close> takes the head. In
  \<open>visit.log(vertex).discovery_time = visit.last_time() + 1\<close> Python evaluates the right
  hand side first, so the clock is read before \<open>log\<close> can add a log for the vertex.
\<close>

text \<open>
  Any hashable object can be a vertex, the object \<open>None\<close> among them, and \<open>bfs\<close> and
  \<open>distances\<close> compare the field \<open>parent\<close> with \<open>None\<close>. So for them a vertex is \<open>None\<close>
  (Python's \<open>None\<close>) or \<open>Some x\<close> (any other object). The field \<open>parent\<close> of a log is \<open>None\<close>
  until it is assigned and \<open>Some p\<close> once it holds the vertex \<open>p\<close>; the comparison
  \<open>neighbor_log.parent == None\<close> of the code is true in both cases that the code cannot tell
  apart, the field that was never assigned and the field that holds the vertex \<open>None\<close>.
  Vertices are compared with \<open>=\<close>: an object whose \<open>==\<close> is not reflexive (a NaN) is
  outside this model.
\<close>

definition is_None :: "'v option option \<Rightarrow> bool" where
  "is_None p \<longleftrightarrow> p = None \<or> p = Some None"

fun bfs_neighbors ::
  "'v option \<Rightarrow> 'v option \<Rightarrow> 'v option list \<Rightarrow> 'v option visit \<Rightarrow> 'v option list \<Rightarrow>
     'v option visit \<times> 'v option list" where
  "bfs_neighbors source vertex [] visit queue = (visit, queue)"
| "bfs_neighbors source vertex (neighbor # neighbors) visit queue =
     (let (neighbor_log, visit1) = log neighbor visit;
          visit2 = (if is_None (parent neighbor_log) \<and> neighbor \<noteq> source
                    then assign neighbor (\<lambda>l. l\<lparr>parent := Some vertex\<rparr>) visit1
                    else visit1)
      in bfs_neighbors source vertex neighbors visit2 (queue @ [neighbor]))"

definition discover :: "'v \<Rightarrow> 'v visit \<Rightarrow> 'v visit" where
  "discover vertex visit =
     (let t = last_time visit + 1
      in assign vertex (\<lambda>l. l\<lparr>discovery_time := t\<rparr>) (snd (log vertex visit)))"

text \<open>The number of registered vertices a visit has not discovered bounds the loop.\<close>

definition undiscovered :: "'v digraph \<Rightarrow> 'v visit \<Rightarrow> 'v set" where
  "undiscovered g visit = {v \<in> set (map fst g). \<not> is_discovered visit v}"

lemma map_of_log: "map_of (snd (log v visit)) u =
    (if u = v \<and> map_of visit v = None then Some (VertexLog v) else map_of visit u)"
  by (simp add: log_def update_conv' split: option.splits)

lemma map_of_assign: "map_of (assign v f visit) u =
    (if u = v then map_option f (map_of visit v) else map_of visit u)"
  by (simp add: assign_def update_conv' split: option.splits)

lemma is_discovered_log [simp]: "is_discovered (snd (log v visit)) u = is_discovered visit u"
  by (simp add: is_discovered_def map_of_log VertexLog_def)

lemma is_discovered_log_eq:
  "log v visit = (l, visit') \<Longrightarrow> is_discovered visit' u = is_discovered visit u"
  using is_discovered_log[of v visit u] by simp

lemma is_discovered_assign:
  "(\<And>l. discovery_time (f l) = discovery_time l) \<Longrightarrow>
   is_discovered (assign v f visit) u = is_discovered visit u"
  by (simp add: is_discovered_def map_of_assign split: option.splits)

lemma last_time_fold_ge:
  "m \<le> fold (\<lambda>l max_time.
             let m = (if discovery_time l > max_time then discovery_time l else max_time)
             in if finish_time l > m then finish_time l else m) ls (m::int)"
proof (induction ls arbitrary: m)
  case Nil
  show ?case by simp
next
  case (Cons l ls)
  let ?m = "let m' = (if discovery_time l > m then discovery_time l else m)
            in if finish_time l > m' then finish_time l else m'"
  have "m \<le> ?m" by (simp add: Let_def)
  also have "?m \<le> fold (\<lambda>l max_time.
             let m = (if discovery_time l > max_time then discovery_time l else max_time)
             in if finish_time l > m then finish_time l else m) ls ?m"
    by (rule Cons.IH)
  finally show ?case by simp
qed

lemma last_time_nonneg: "0 \<le> last_time visit"
  unfolding last_time_def by (rule last_time_fold_ge)

lemma is_discovered_discover:
  "is_discovered (discover v visit) u \<longleftrightarrow> u = v \<or> is_discovered visit u"
proof -
  have "last_time visit + 1 \<noteq> - 1"
    using last_time_nonneg[of visit] by simp
  then show ?thesis
    by (auto simp: discover_def is_discovered_def map_of_assign map_of_log Let_def
        split: option.splits)
qed

lemma is_discovered_bfs_neighbors:
  "bfs_neighbors source vertex ns visit queue = (visit', queue') \<Longrightarrow>
   is_discovered visit' u = is_discovered visit u"
proof (induction ns arbitrary: visit queue)
  case Nil
  then show ?case by simp
next
  case (Cons n ns)
  then show ?case
    by (auto simp: Let_def is_discovered_assign is_discovered_log_eq
        split: prod.splits if_splits)
qed

lemma undiscovered_discover_less:
  assumes "v \<in> set (map fst g)" and "\<not> is_discovered visit v"
    and "\<And>u. is_discovered visit' u = is_discovered (discover v visit) u"
  shows "card (undiscovered g visit') < card (undiscovered g visit)"
proof (rule psubset_card_mono)
  show "finite (undiscovered g visit)"
    by (simp add: undiscovered_def)
  show "undiscovered g visit' \<subset> undiscovered g visit"
    using assms by (auto simp: undiscovered_def is_discovered_discover)
qed

lemma adj_Inr_has_vertex: "adj g v = Inr ns \<Longrightarrow> v \<in> set (map fst g)"
  by (auto simp: adj_def split: option.splits dest: map_of_SomeD intro: rev_image_eqI)

lemma bfs_loop_decreases:
  assumes "\<not> is_discovered visit vertex" and "adj g vertex = Inr ns"
  shows "card (undiscovered g (fst (bfs_neighbors source vertex ns (discover vertex visit) queue)))
           < card (undiscovered g visit)"
proof (rule undiscovered_discover_less)
  show "vertex \<in> set (map fst g)"
    using assms(2) by (rule adj_Inr_has_vertex)
  show "\<not> is_discovered visit vertex" by fact
  show "is_discovered (fst (bfs_neighbors source vertex ns (discover vertex visit) queue)) u =
          is_discovered (discover vertex visit) u" for u
    by (rule is_discovered_bfs_neighbors[OF prod.collapse[symmetric]])
qed

function bfs_loop ::
  "'v option digraph \<Rightarrow> 'v option \<Rightarrow> 'v option visit \<Rightarrow> 'v option list \<Rightarrow>
     error + 'v option visit" where
  "bfs_loop g source visit [] = Inr visit"
| "bfs_loop g source visit (vertex # queue) =
     (if \<not> is_discovered visit vertex then
        let visit1 = discover vertex visit
        in (case adj g vertex of
              Inl e \<Rightarrow> Inl e
            | Inr neighbors \<Rightarrow>
                (case bfs_neighbors source vertex neighbors visit1 queue of
                   (visit2, queue2) \<Rightarrow> bfs_loop g source visit2 queue2))
      else bfs_loop g source visit queue)"
  by pat_completeness auto
termination
  by (relation "measures [\<lambda>(g, source, visit, queue). card (undiscovered g visit),
                           \<lambda>(g, source, visit, queue). length queue]")
    (simp_all add: case_prod_beta bfs_loop_decreases)

definition bfs :: "'v option digraph \<Rightarrow> 'v option \<Rightarrow> error + 'v option visit" where
  "bfs g source =
     (if is_empty g then Inl EmptyGraphError
      else if source \<notin> verteces g then Inl NotFoundError
      else bfs_loop g source Visit [source])"

section \<open>Distances\<close>







section \<open>Notions used in the statements\<close>

text \<open>
  The times recorded in a visit, the fields of the log of a vertex (with the values of a
  fresh log where the visit has none), the two remaining assignments of \<open>dfs\<close> as
  operations of their own, the edges of a graph, and the relations between the visit a
  call or a loop starts from and the visit it returns; among them \<open>ticks\<close>: the times
  written to the vertices discovered in between are the integers from the clock before
  plus one up to the clock after, as many as two for each such vertex (one for each under
  \<open>bfs\<close>, which writes no finish time).
\<close>

definition times :: "'v visit \<Rightarrow> int set" where
  "times visit = (\<lambda>e. discovery_time (snd e)) ` set visit \<union> (\<lambda>e. finish_time (snd e)) ` set visit"

definition dtime :: "'v visit \<Rightarrow> 'v \<Rightarrow> int" where
  "dtime visit v = (case map_of visit v of None \<Rightarrow> - 1 | Some l \<Rightarrow> discovery_time l)"

definition ftime :: "'v visit \<Rightarrow> 'v \<Rightarrow> int" where
  "ftime visit v = (case map_of visit v of None \<Rightarrow> - 1 | Some l \<Rightarrow> finish_time l)"

definition parent_of :: "'v visit \<Rightarrow> 'v \<Rightarrow> 'v option" where
  "parent_of visit v = (case map_of visit v of None \<Rightarrow> None | Some l \<Rightarrow> parent l)"

definition finish :: "'v \<Rightarrow> 'v visit \<Rightarrow> 'v visit" where
  "finish v visit = assign v (\<lambda>l. l\<lparr>finish_time := last_time visit + 1\<rparr>) visit"

definition set_parent :: "'v \<Rightarrow> 'v \<Rightarrow> 'v visit \<Rightarrow> 'v visit" where
  "set_parent v p visit = assign v (\<lambda>l. l\<lparr>parent := Some p\<rparr>) (snd (log v visit))"

definition newly :: "'v visit \<Rightarrow> 'v visit \<Rightarrow> 'v \<Rightarrow> bool" where
  "newly v v' u \<longleftrightarrow> \<not> is_discovered v u \<and> is_discovered v' u"

definition unchanged :: "'v visit \<Rightarrow> 'v visit \<Rightarrow> 'v \<Rightarrow> bool" where
  "unchanged v v' u \<longleftrightarrow>
     dtime v' u = dtime v u \<and> ftime v' u = ftime v u \<and> parent_of v' u = parent_of v u"

definition stamped :: "'v visit \<Rightarrow> 'v visit \<Rightarrow> 'v \<Rightarrow> bool" where
  "stamped v v' u \<longleftrightarrow>
     last_time v < dtime v' u \<and> dtime v' u < ftime v' u \<and> ftime v' u \<le> last_time v'"

definition inside :: "'v visit \<Rightarrow> 'v \<Rightarrow> 'v \<Rightarrow> bool" where
  "inside v' u p \<longleftrightarrow> dtime v' p < dtime v' u \<and> ftime v' u < ftime v' p"

definition explored :: "'v \<Rightarrow> 'v visit \<Rightarrow> 'v visit \<Rightarrow> bool" where
  "explored s v v' \<longleftrightarrow>
     last_time v \<le> last_time v' \<and>
     (\<forall>u. \<not> newly v v' u \<longrightarrow> unchanged v v' u) \<and>
     (\<forall>u. newly v v' u \<longrightarrow> stamped v v' u \<and>
        (\<exists>p. parent_of v' u = Some p \<and> (p = s \<or> (newly v v' p \<and> inside v' u p))))"

definition dfs_post :: "'v \<Rightarrow> 'v visit \<Rightarrow> 'v visit \<Rightarrow> bool" where
  "dfs_post s v v' \<longleftrightarrow>
     newly v v' s \<and> dtime v' s = last_time v + 1 \<and> ftime v' s = last_time v' \<and>
     parent_of v' s = parent_of v s \<and>
     (\<forall>u. \<not> newly v v' u \<longrightarrow> unchanged v v' u) \<and>
     (\<forall>u. newly v v' u \<longrightarrow> stamped v v' u \<and>
        (u \<noteq> s \<longrightarrow> (\<exists>p. parent_of v' u = Some p \<and> newly v v' p \<and> inside v' u p)))"

definition parent_rel :: "'v visit \<Rightarrow> ('v \<times> 'v) set" where
  "parent_rel visit = {(u, p). parent_of visit u = Some p}"

fun later :: "'v list \<Rightarrow> 'v \<Rightarrow> 'v set" where
  "later [] x = {}"
| "later (v # vs) x = (if x = v then set vs else {}) \<union> later vs x"

definition edges :: "'v digraph \<Rightarrow> ('v \<times> 'v) set" where
  "edges g = {(u, w). \<exists>ts. map_of g u = Some ts \<and> w \<in> set ts}"

definition bfs_frame :: "'v option \<Rightarrow> 'v option visit \<Rightarrow> 'v option visit \<Rightarrow> bool" where
  "bfs_frame source visit visit' \<longleftrightarrow>
     last_time visit \<le> last_time visit' \<and>
     parent_of visit' source = parent_of visit source \<and>
     (\<forall>u. ftime visit' u = ftime visit u \<and>
        (\<not> is_None (parent_of visit u) \<longrightarrow> parent_of visit' u = parent_of visit u) \<and>
        (is_discovered visit u \<longrightarrow> dtime visit' u = dtime visit u) \<and>
        (\<not> is_discovered visit u \<and> is_discovered visit' u \<longrightarrow> last_time visit < dtime visit' u))"




definition new_stamps :: "'v visit \<Rightarrow> 'v visit \<Rightarrow> int set" where
  "new_stamps v v' = {t. \<exists>u. newly v v' u \<and> (t = dtime v' u \<or> t = ftime v' u)}"

definition ticks :: "'v visit \<Rightarrow> 'v visit \<Rightarrow> bool" where
  "ticks v v' \<longleftrightarrow>
     new_stamps v v' = {last_time v + 1 .. last_time v'} \<and>
     last_time v' = last_time v + 2 * int (card {u. newly v v' u})"

definition new_discoveries :: "'v visit \<Rightarrow> 'v visit \<Rightarrow> int set" where
  "new_discoveries v v' = {t. \<exists>u. newly v v' u \<and> t = dtime v' u}"

definition bfs_ticks :: "'v visit \<Rightarrow> 'v visit \<Rightarrow> bool" where
  "bfs_ticks v v' \<longleftrightarrow>
     new_discoveries v v' = {last_time v + 1 .. last_time v'} \<and>
     last_time v' = last_time v + int (card {u. newly v v' u})"

definition clock_ok :: "'v visit \<Rightarrow> bool" where
  "clock_ok visit \<longleftrightarrow> (\<forall>t \<in> times visit. t = - 1 \<or> 1 \<le> t)"

text \<open>
  Notions for \<open>distances\<close>. A walk of \<open>n\<close> edges from \<open>s\<close>; a vertex is reachable if some
  walk ends in it, and \<open>n\<close> is its shortest distance if no walk to it has fewer edges (a
  walk with the fewest edges repeats no vertex, so this is the minimum over paths).
  \<open>bfs_inv\<close> is the invariant of a breadth first search over the sets of discovered
  vertices, of vertices with a distance, and the queue; \<open>dist_of\<close> reads the field
  \<open>distance\<close>, which a log has only after the assignment \<open>log.distance = ...\<close>;
  \<open>visit_ok\<close> says that every log is stored under its own vertex; \<open>dist_weak\<close> is what
  the loop of \<open>distances\<close> keeps on every graph, \<open>dist_inv\<close> what it keeps as long as the
  vertex \<open>None\<close> is not met.
\<close>

inductive walk :: "'v digraph \<Rightarrow> 'v \<Rightarrow> nat \<Rightarrow> 'v \<Rightarrow> bool" for g :: "'v digraph" and s :: 'v where
  walk_0: "walk g s 0 s"
| walk_Suc: "walk g s n u \<Longrightarrow> (u, w) \<in> edges g \<Longrightarrow> walk g s (Suc n) w"


definition dist_of :: "'v visit \<Rightarrow> 'v \<Rightarrow> int option" where
  "dist_of visit v = (case map_of visit v of None \<Rightarrow> None | Some l \<Rightarrow> distance l)"



definition set_distance :: "'v \<Rightarrow> int \<Rightarrow> 'v visit \<Rightarrow> 'v visit" where
  "set_distance v d visit = assign v (\<lambda>l. l\<lparr>distance := Some d\<rparr>) visit"






section \<open>Lookup and update on dictionaries\<close>

lemma has_vertex_map_of: "has_vertex g v \<longleftrightarrow> map_of g v \<noteq> None"
  by (simp add: has_vertex_def map_of_eq_None_iff)

lemma has_vertex_update [simp]: "has_vertex (AList.update k x g) v \<longleftrightarrow> v = k \<or> has_vertex g v"
  by (auto simp: has_vertex_map_of update_conv')

lemma wf_digraph_iff:
  "wf_digraph g \<longleftrightarrow>
     distinct (map fst g) \<and>
     (\<forall>s ts. map_of g s = Some ts \<longrightarrow> distinct ts \<and> (\<forall>t \<in> set ts. has_vertex g t))"
  unfolding wf_digraph_def list_all_iff
  by (cases "distinct (map fst g)") auto

lemma wf_digraph_update:
  assumes "wf_digraph g" and "distinct ts" and "\<forall>t \<in> set ts. t = k \<or> has_vertex g t"
  shows "wf_digraph (AList.update k ts g)"
  using assms unfolding wf_digraph_iff
  by (auto simp: update_conv' distinct_update)

lemma wf_digraph_empty: "wf_digraph DiGraph"
  by (simp add: wf_digraph_def DiGraph_def)

lemma wf_digraph_add_vertex: "wf_digraph g \<Longrightarrow> wf_digraph (add_vertex v g)"
  by (simp add: add_vertex_def wf_digraph_update)

lemma wf_digraph_add_edge: "wf_digraph g \<Longrightarrow> wf_digraph (snd (add_edge u v g))"
proof (cases "map_of g u")
  case None
  assume "wf_digraph g"
  with None show ?thesis by (simp add: add_edge_def)
next
  case (Some ts)
  assume wf: "wf_digraph g"
  with Some have "distinct ts" and "\<forall>t \<in> set ts. has_vertex g t"
    by (auto simp: wf_digraph_iff)
  then have "has_vertex g v \<Longrightarrow> v \<notin> set ts \<Longrightarrow> wf_digraph (AList.update u (ts @ [v]) g)"
    using wf by (intro wf_digraph_update) auto
  with wf Some show ?thesis by (simp add: add_edge_def)
qed

lemma count_list_distinct: "distinct xs \<Longrightarrow> x \<in> set xs \<Longrightarrow> count_list xs x = 1"
  by (induction xs) auto

section \<open>Adding an edge twice\<close>

text \<open>
  C5: for a graph built through the class (\<open>wf_digraph\<close>) and registered vertices \<open>u\<close>
  and \<open>v\<close>, both calls of \<open>add_edge(u, v)\<close> return without an exception, the second call
  leaves the graph as the first one left it, \<open>adj(u)\<close> then holds \<open>v\<close> exactly once, and the
  graph still has no duplicate target in any adjacency list.
\<close>

theorem add_edge_twice_once:
  assumes "wf_digraph g" and "has_vertex g u" and "has_vertex g v"
  shows "\<exists>g1 ts. add_edge u v g = (Inr (), g1) \<and> add_edge u v g1 = (Inr (), g1) \<and>
           adj g1 u = Inr ts \<and> count_list ts v = 1 \<and> distinct ts \<and> wf_digraph g1"
proof -
  from assms(2) obtain ts where ts: "map_of g u = Some ts"
    by (auto simp: has_vertex_map_of)
  with assms(1) have d: "distinct ts"
    by (auto simp: wf_digraph_iff)
  have wf1: "wf_digraph (snd (add_edge u v g))"
    using assms(1) by (rule wf_digraph_add_edge)
  show ?thesis
  proof (cases "v \<in> set ts")
    case True
    with d have "count_list ts v = 1"
      by (simp add: count_list_distinct)
    with True ts assms d show ?thesis
      by (simp add: add_edge_def adj_def)
  next
    case False
    then have "count_list (ts @ [v]) v = 1"
      by (simp add: count_list_0_iff)
    with False ts assms d wf1 show ?thesis
      by (simp add: add_edge_def adj_def update_conv')
  qed
qed

theorem add_edge_twice_once_witness:
  "\<exists>g1 ts. add_edge (1::nat) 2 [(1, [3]), (2, []), (3, [])] = (Inr (), g1) \<and>
     add_edge 1 2 g1 = (Inr (), g1) \<and> adj g1 1 = Inr ts \<and> count_list ts 2 = 1 \<and>
     distinct ts \<and> wf_digraph g1"
proof -
  have "wf_digraph [(1::nat, [3]), (2, []), (3, [])]"
    by (simp add: wf_digraph_def has_vertex_def)
  moreover have "has_vertex [(1::nat, [3]), (2, []), (3, [])] 1"
    and "has_vertex [(1::nat, [3]), (2, []), (3, [])] 2"
    by (simp_all add: has_vertex_def)
  ultimately show ?thesis
    by (rule add_edge_twice_once)
qed

section \<open>Removing a vertex\<close>

lemma adj_Inr_iff: "adj g v = Inr ts \<longleftrightarrow> map_of g v = Some ts"
  by (simp add: adj_def split: option.splits)

lemma keys_strip_target: "map fst (strip_target v k g) = map fst g"
  by (auto simp: strip_target_def update_keys split: option.splits dest: map_of_SomeD
      intro: rev_image_eqI)

lemma map_of_strip_target:
  "map_of (strip_target v k g) u =
     (if u = k then map_option (remove1 v) (map_of g k) else map_of g u)"
  by (auto simp: strip_target_def update_conv' remove1_idem split: option.splits)

lemma keys_fold_strip_target: "map fst (fold (strip_target v) ks g) = map fst g"
  by (induction ks arbitrary: g) (simp_all add: keys_strip_target)

lemma map_of_fold_strip_target:
  "distinct ks \<Longrightarrow>
   map_of (fold (strip_target v) ks g) u =
     (if u \<in> set ks then map_option (remove1 v) (map_of g u) else map_of g u)"
  by (induction ks arbitrary: g) (auto simp: map_of_strip_target)

lemma has_vertex_verteces: "has_vertex g v \<longleftrightarrow> v \<in> verteces g"
  by (simp add: has_vertex_def verteces_def)

lemma remove_vertex_result:
  assumes "distinct (map fst g)" and "map_of g v = Some ts"
  shows "\<exists>g'. remove_vertex v g = (Inr (remove1 v ts), g') \<and>
               map fst g' = removeAll v (map fst g) \<and>
               (\<forall>u. map_of g' u = (if u = v then None else map_option (remove1 v) (map_of g u)))"
proof -
  let ?g = "fold (strip_target v) (map fst g) g"
  have hv: "has_vertex g v"
    using assms(2) by (simp add: has_vertex_map_of)
  have m: "map_of ?g u = map_option (remove1 v) (map_of g u)" for u
  proof (cases "u \<in> set (map fst g)")
    case True
    with assms(1) show ?thesis by (simp add: map_of_fold_strip_target)
  next
    case False
    then have "map_of g u = None" by (simp add: map_of_eq_None_iff)
    with False assms(1) show ?thesis by (simp add: map_of_fold_strip_target)
  qed
  have k: "map fst (AList.delete v ?g) = removeAll v (map fst g)"
    by (simp add: delete_keys keys_fold_strip_target)
  show ?thesis
    using hv assms(2) k by (simp add: remove_vertex_def m delete_conv')
qed

lemma wf_digraph_remove_vertex:
  assumes "wf_digraph g"
    and "map fst g' = removeAll v (map fst g)"
    and "\<And>u. map_of g' u = (if u = v then None else map_option (remove1 v) (map_of g u))"
  shows "wf_digraph g'"
  unfolding wf_digraph_iff
proof (intro conjI allI impI)
  show "distinct (map fst g')"
    using assms(1,2) by (simp add: wf_digraph_iff distinct_removeAll)
next
  fix s ts assume "map_of g' s = Some ts"
  with assms(3) obtain us where us: "s \<noteq> v" "map_of g s = Some us" "ts = remove1 v us"
    by (auto split: if_splits)
  with assms(1) have d: "distinct us" and r: "\<forall>t \<in> set us. has_vertex g t"
    by (auto simp: wf_digraph_iff)
  from d us(3) show "distinct ts" by simp
  from d r us(3) assms(2) show "\<forall>t \<in> set ts. has_vertex g' t"
    by (auto simp: has_vertex_def)
qed

text \<open>
  C4, as the code has it: for a graph built through the class and a registered vertex
  \<open>v\<close> with adjacency list \<open>ts\<close>, \<open>remove_vertex(v)\<close> returns \<open>ts\<close> without \<open>v\<close> itself
  (the stripping pass runs over the list of \<open>v\<close> too before it is popped), \<open>v\<close> is no
  longer a vertex, every other vertex keeps its adjacency list with \<open>v\<close> taken out and
  nothing else changed, and the graph is still well formed. For an unregistered \<open>v\<close> the
  call raises \<open>NotFoundError\<close> and the graph is the one of the call.
\<close>

theorem remove_vertex_strips:
  assumes "wf_digraph g"
  shows "(\<forall>ts. adj g v = Inr ts \<longrightarrow>
            (\<exists>g'. remove_vertex v g = (Inr (removeAll v ts), g') \<and>
               verteces g' = verteces g - {v} \<and>
               adj g' v = Inl NotFoundError \<and>
               (\<forall>u us. u \<noteq> v \<and> adj g u = Inr us \<longrightarrow> adj g' u = Inr (removeAll v us)) \<and>
               wf_digraph g')) \<and>
         (\<not> has_vertex g v \<longrightarrow> remove_vertex v g = (Inl NotFoundError, g))"
proof (intro conjI allI impI)
  fix ts assume "adj g v = Inr ts"
  then have ts: "map_of g v = Some ts" by (simp add: adj_Inr_iff)
  from assms have dk: "distinct (map fst g)" by (simp add: wf_digraph_iff)
  from remove_vertex_result[OF dk ts] obtain g' where g':
    "remove_vertex v g = (Inr (remove1 v ts), g')"
    "map fst g' = removeAll v (map fst g)"
    "\<And>u. map_of g' u = (if u = v then None else map_option (remove1 v) (map_of g u))"
    by blast
  have dl: "distinct us" if "map_of g u = Some us" for u us
    using assms that by (auto simp: wf_digraph_iff)
  have "remove_vertex v g = (Inr (removeAll v ts), g')"
    using g'(1) dl[OF ts] by (simp add: distinct_remove1_removeAll)
  moreover have "verteces g' = verteces g - {v}"
    using g'(2) by (auto simp: verteces_def)
  moreover have "adj g' v = Inl NotFoundError"
    by (simp add: adj_def g'(3))
  moreover have "adj g' u = Inr (removeAll v us)" if "u \<noteq> v \<and> adj g u = Inr us" for u us
    using that dl[of u us] by (simp add: adj_def g'(3) distinct_remove1_removeAll split: option.splits)
  moreover have "wf_digraph g'"
    using assms g'(2,3) by (rule wf_digraph_remove_vertex)
  ultimately show "\<exists>g'. remove_vertex v g = (Inr (removeAll v ts), g') \<and>
               verteces g' = verteces g - {v} \<and>
               adj g' v = Inl NotFoundError \<and>
               (\<forall>u us. u \<noteq> v \<and> adj g u = Inr us \<longrightarrow> adj g' u = Inr (removeAll v us)) \<and>
               wf_digraph g'"
    by blast
next
  assume "\<not> has_vertex g v"
  then show "remove_vertex v g = (Inl NotFoundError, g)"
    by (simp add: remove_vertex_def)
qed

theorem remove_vertex_strips_witness:
  "(\<exists>g'. remove_vertex (1::nat) [(1, [1, 2]), (2, [1, 3]), (3, [])] = (Inr [2], g') \<and>
      verteces g' = verteces [(1::nat, [1, 2]), (2, [1, 3]), (3, [])] - {1} \<and>
      adj g' 1 = Inl NotFoundError \<and>
      adj g' 2 = Inr [3] \<and> wf_digraph g') \<and>
   remove_vertex (4::nat) [(1, [1, 2]), (2, [1, 3]), (3, [])] =
     (Inl NotFoundError, [(1, [1, 2]), (2, [1, 3]), (3, [])])"
proof -
  have wf: "wf_digraph [(1::nat, [1, 2]), (2, [1, 3]), (3, [])]"
    by (simp add: wf_digraph_def has_vertex_def)
  have a1: "adj [(1::nat, [1, 2]), (2, [1, 3]), (3, [])] 1 = Inr [1, 2]"
    and a2: "(2::nat) \<noteq> 1 \<and> adj [(1::nat, [1, 2]), (2, [1, 3]), (3, [])] 2 = Inr [1, 3]"
    and n4: "\<not> has_vertex [(1::nat, [1, 2]), (2, [1, 3]), (3, [])] 4"
    by (simp_all add: adj_def has_vertex_def)
  from remove_vertex_strips[OF wf, of 1] a1 obtain g' where g':
    "remove_vertex (1::nat) [(1, [1, 2]), (2, [1, 3]), (3, [])] = (Inr (removeAll 1 [1, 2]), g')"
    "verteces g' = verteces [(1::nat, [1, 2]), (2, [1, 3]), (3, [])] - {1}"
    "adj g' 1 = Inl NotFoundError"
    "\<forall>u us. u \<noteq> 1 \<and> adj [(1::nat, [1, 2]), (2, [1, 3]), (3, [])] u = Inr us \<longrightarrow>
        adj g' u = Inr (removeAll 1 us)"
    "wf_digraph g'"
    by blast
  from g'(4) a2 have "adj g' 2 = Inr (removeAll 1 [1, 3])" by blast
  with g' remove_vertex_strips[OF wf, of 4] n4 show ?thesis by simp
qed

text \<open>
  The claim as written (the returned sequence is the one the vertex had at the time of the
  call) fails for a vertex with a self-loop: the returned list has lost the vertex.
\<close>

theorem remove_vertex_self_loop_counterexample:
  "wf_digraph [(1::nat, [1, 2]), (2, [])] \<and>
   adj [(1::nat, [1, 2]), (2, [])] 1 = Inr [1, 2] \<and>
   remove_vertex 1 [(1::nat, [1, 2]), (2, [])] = (Inr [2], [(2, [])])"
  by (simp add: wf_digraph_def has_vertex_def adj_def remove_vertex_def strip_target_def)

section \<open>Equality of graphs\<close>

lemma map_of_key_Some: "v \<in> fst ` set g \<Longrightarrow> \<exists>ts. map_of g v = Some ts"
  by (cases "map_of g v") (auto simp: map_of_eq_None_iff)

lemma digraph_eq_iff: "digraph_eq g h \<longleftrightarrow>
    verteces g = verteces h \<and>
    (\<forall>v \<in> verteces g. \<exists>ts us. adj g v = Inr ts \<and> adj h v = Inr us \<and> set ts = set us)"
proof (cases "verteces g = verteces h")
  case False
  then show ?thesis by (simp add: digraph_eq_def)
next
  case True
  have "(map_option set (map_of g v) = map_option set (map_of h v)) \<longleftrightarrow>
        (\<exists>ts us. map_of g v = Some ts \<and> map_of h v = Some us \<and> set ts = set us)"
    if "v \<in> verteces g" for v
  proof -
    from that obtain ts where "map_of g v = Some ts"
      using map_of_key_Some[of v g] by (auto simp: verteces_def)
    moreover from that True obtain us where "map_of h v = Some us"
      using map_of_key_Some[of v h] by (auto simp: verteces_def)
    ultimately show ?thesis by simp
  qed
  then have "(\<forall>v \<in> verteces g. map_option set (map_of g v) = map_option set (map_of h v)) \<longleftrightarrow>
    (\<forall>v \<in> verteces g. \<exists>ts us. map_of g v = Some ts \<and> map_of h v = Some us \<and> set ts = set us)"
    by blast
  with True show ?thesis
    by (simp add: digraph_eq_def list_all_iff adj_Inr_iff verteces_def)
qed


lemma add_edge_result:
  assumes "has_vertex g u" and "has_vertex g w"
  shows "\<exists>g'. add_edge u w g = (Inr (), g') \<and> map fst g' = map fst g \<and>
           (\<forall>x. map_of g' x =
              (if x = u then map_option (\<lambda>ts. if w \<in> set ts then ts else ts @ [w]) (map_of g u)
               else map_of g x))"
proof -
  from assms(1) obtain ts where ts: "map_of g u = Some ts"
    by (auto simp: has_vertex_map_of)
  then have "u \<in> fst ` set g"
    by (auto dest: map_of_SomeD intro: rev_image_eqI)
  then have "map fst (AList.update u (ts @ [w]) g) = map fst g"
    by (simp add: update_keys)
  with ts assms(2) show ?thesis
    by (simp add: add_edge_def update_conv')
qed

lemma add_edges_result:
  assumes "\<forall>(u, w) \<in> set es. has_vertex g u \<and> has_vertex g w"
  shows "\<exists>g'. add_edges es g = (Inr (), g') \<and> map fst g' = map fst g \<and>
           (\<forall>x. map_option set (map_of g' x) =
                map_option (\<lambda>ts. set ts \<union> {w. (x, w) \<in> set es}) (map_of g x))"
  using assms
proof (induction es arbitrary: g)
  case Nil
  then show ?case by (simp add: option.map_ident)
next
  case (Cons e es)
  obtain u w where e: "e = (u, w)" by (cases e)
  with Cons.prems have "has_vertex g u" "has_vertex g w" by auto
  from add_edge_result[OF this] obtain g1 where g1: "add_edge u w g = (Inr (), g1)"
    "map fst g1 = map fst g"
    "\<And>x. map_of g1 x =
        (if x = u then map_option (\<lambda>ts. if w \<in> set ts then ts else ts @ [w]) (map_of g u)
         else map_of g x)"
    by blast
  from g1(2) have hv: "has_vertex g1 = has_vertex g"
    by (simp add: has_vertex_def fun_eq_iff)
  with Cons.prems have "\<forall>(u, w) \<in> set es. has_vertex g1 u \<and> has_vertex g1 w"
    by auto
  from Cons.IH[OF this] obtain g' where g': "add_edges es g1 = (Inr (), g')"
    "map fst g' = map fst g1"
    "\<And>x. map_option set (map_of g' x) =
        map_option (\<lambda>ts. set ts \<union> {w. (x, w) \<in> set es}) (map_of g1 x)"
    by blast
  have "map_option set (map_of g' x) =
          map_option (\<lambda>ts. set ts \<union> {w. (x, w) \<in> set (e # es)}) (map_of g x)" for x
    unfolding g'(3) g1(3) e
    by (cases "map_of g u"; cases "map_of g x") auto
  with g1(1,2) g'(1,2) e show ?case by simp
qed

lemma digraph_eq_map_of:
  assumes "map fst g = map fst h"
    and "\<And>x. map_option set (map_of g x) = map_option set (map_of h x)"
  shows "digraph_eq g h"
  using assms by (simp add: digraph_eq_def verteces_def list_all_iff)

lemma add_edges_order:
  assumes "\<forall>(u, w) \<in> set es1. has_vertex g0 u \<and> has_vertex g0 w" and "set es1 = set es2"
  shows "\<exists>g1 g2. add_edges es1 g0 = (Inr (), g1) \<and> add_edges es2 g0 = (Inr (), g2) \<and>
           digraph_eq g1 g2"
proof -
  from assms have "\<forall>(u, w) \<in> set es2. has_vertex g0 u \<and> has_vertex g0 w"
    by simp
  from add_edges_result[OF assms(1)] add_edges_result[OF this]
  obtain g1 g2 where r: "add_edges es1 g0 = (Inr (), g1)" "map fst g1 = map fst g0"
    "\<And>x. map_option set (map_of g1 x) =
        map_option (\<lambda>ts. set ts \<union> {w. (x, w) \<in> set es1}) (map_of g0 x)"
    "add_edges es2 g0 = (Inr (), g2)" "map fst g2 = map fst g0"
    "\<And>x. map_option set (map_of g2 x) =
        map_option (\<lambda>ts. set ts \<union> {w. (x, w) \<in> set es2}) (map_of g0 x)"
    by blast
  have "digraph_eq g1 g2"
    by (rule digraph_eq_map_of) (simp_all add: r assms(2))
  with r(1,4) show ?thesis by blast
qed

text \<open>
  C7: two graphs are equal exactly when they have the same vertex set and every vertex
  has the same set of targets in both, whatever the order of the adjacency lists; and two
  lists of edges with the same elements, added to the same graph whose vertices are all
  registered, give equal graphs.
\<close>

theorem digraph_eq_insertion_order:
  "(digraph_eq g h \<longleftrightarrow>
      verteces g = verteces h \<and>
      (\<forall>v \<in> verteces g. \<exists>ts us. adj g v = Inr ts \<and> adj h v = Inr us \<and> set ts = set us)) \<and>
   ((\<forall>(u, w) \<in> set es1. has_vertex g0 u \<and> has_vertex g0 w) \<and> set es1 = set es2 \<longrightarrow>
      (\<exists>g1 g2. add_edges es1 g0 = (Inr (), g1) \<and> add_edges es2 g0 = (Inr (), g2) \<and>
         digraph_eq g1 g2))"
  using digraph_eq_iff[of g h] add_edges_order[of es1 g0 es2] by blast

theorem digraph_eq_insertion_order_witness:
  "verteces [(1::nat, [2, 3]), (2, []), (3, [])] = verteces [(2, []), (1, [3, 2]), (3, [])] \<and>
   (\<exists>ts us. adj [(1::nat, [2, 3]), (2, []), (3, [])] 1 = Inr ts \<and>
        adj [(2, []), (1, [3, 2]), (3, [])] 1 = Inr us \<and> set ts = set us) \<and>
   (\<exists>g1 g2. add_edges [(1, 2), (1, 3)] [(1::nat, []), (2, []), (3, [])] = (Inr (), g1) \<and>
      add_edges [(1, 3), (1, 2)] [(1::nat, []), (2, []), (3, [])] = (Inr (), g2) \<and>
      digraph_eq g1 g2)"
proof -
  have "digraph_eq [(1::nat, [2, 3]), (2, []), (3, [])] [(2, []), (1, [3, 2]), (3, [])]"
    by (simp add: digraph_eq_def verteces_def insert_commute)
  moreover have "(1::nat) \<in> verteces [(1::nat, [2, 3]), (2, []), (3, [])]"
    by (simp add: verteces_def)
  moreover have "(\<forall>(u, w) \<in> set [(1::nat, 2::nat), (1, 3)].
      has_vertex [(1::nat, []), (2, []), (3, [])] u \<and> has_vertex [(1::nat, []), (2, []), (3, [])] w) \<and>
      set [(1::nat, 2::nat), (1, 3)] = set [(1, 3), (1, 2)]"
    by (auto simp: has_vertex_def)
  ultimately show ?thesis
    using digraph_eq_insertion_order[of "[(1::nat, [2, 3]), (2, []), (3, [])]"
        "[(2, []), (1, [3, 2]), (3, [])]" "[(1, 2), (1, 3)]" "[(1::nat, []), (2, []), (3, [])]"
        "[(1, 3), (1, 2)]"]
    by blast
qed

section \<open>The clock of a visit\<close>

lemma finite_times [simp]: "finite (times visit)"
  by (simp add: times_def)

lemma Max_insert_max:
  "finite S \<Longrightarrow> Max (insert (max a b) S) = Max (insert a (insert b S))" for a b :: int
  by (cases "S = {}") (simp_all add: max.assoc)

lemma last_time_fold_Max:
  "fold (\<lambda>l max_time.
             let m = (if discovery_time l > max_time then discovery_time l else max_time)
             in if finish_time l > m then finish_time l else m) ls (m::int)
   = Max (insert m (discovery_time ` set ls \<union> finish_time ` set ls))"
proof (induction ls arbitrary: m)
  case Nil
  show ?case by simp
next
  case (Cons l ls)
  let ?S = "discovery_time ` set ls \<union> finish_time ` set ls"
  have fin: "finite ?S" by simp
  have "(let m' = (if discovery_time l > m then discovery_time l else m)
         in if finish_time l > m' then finish_time l else m') = max (max m (discovery_time l)) (finish_time l)"
    by (simp add: Let_def max_def)
  moreover have "Max (insert (max (max m (discovery_time l)) (finish_time l)) ?S)
      = Max (insert m (insert (discovery_time l) (insert (finish_time l) ?S)))"
    using fin by (simp only: Max_insert_max finite_insert)
  ultimately show ?case
    using Cons.IH[of "max (max m (discovery_time l)) (finish_time l)"]
    by (simp add: insert_commute Un_insert_left Un_insert_right del: Max_insert)
qed

lemma last_time_Max: "last_time visit = Max (insert 0 (times visit))"
  unfolding last_time_def times_def last_time_fold_Max
  by (simp add: image_image)

lemma times_le_last_time: "t \<in> times visit \<Longrightarrow> t \<le> last_time visit"
  by (simp add: last_time_Max)

lemma map_of_times:
  assumes "map_of visit v = Some l"
  shows "discovery_time l \<in> times visit" and "finish_time l \<in> times visit"
  using map_of_SomeD[OF assms] by (force simp: times_def)+

lemma map_of_le_last_time:
  assumes "map_of visit v = Some l"
  shows "discovery_time l \<le> last_time visit" and "finish_time l \<le> last_time visit"
  using map_of_times[OF assms] by (simp_all add: times_le_last_time)

lemma set_update_distinct:
  "distinct (map fst al) \<Longrightarrow> set (AList.update k v al) = insert (k, v) {e \<in> set al. fst e \<noteq> k}"
  by (induction al) (auto simp: rev_image_eqI)

lemma set_update_subset: "set (AList.update k v al) \<subseteq> insert (k, v) (set al)"
  by (induction al) auto

lemma set_update_mem: "(k, v) \<in> set (AList.update k v al)"
  by (induction al) auto

lemma set_update_fresh: "k \<notin> fst ` set al \<Longrightarrow> set (AList.update k v al) = insert (k, v) (set al)"
  by (induction al) auto

lemma times_Nil: "times [] = {}"
  by (simp add: times_def)

lemma times_Cons:
  "times (e # al) = insert (discovery_time (snd e)) (insert (finish_time (snd e)) (times al))"
  by (auto simp: times_def)

lemma times_update_same:
  "map_of al k = Some l \<Longrightarrow> discovery_time v = discovery_time l \<Longrightarrow>
   finish_time v = finish_time l \<Longrightarrow> times (AList.update k v al) = times al"
  by (induction al) (auto simp: times_Cons split: if_splits)

lemma times_update_subset:
  "times (AList.update k v al) \<subseteq> insert (discovery_time v) (insert (finish_time v) (times al))"
  using set_update_subset[of k v al] by (auto simp: times_def)

lemma times_update_mem:
  "discovery_time v \<in> times (AList.update k v al)" "finish_time v \<in> times (AList.update k v al)"
  using set_update_mem[of k v al] by (force simp: times_def)+

lemma last_time_log [simp]: "last_time (snd (log v visit)) = last_time visit"
proof (cases "map_of visit v")
  case None
  then have "v \<notin> fst ` set visit" by (simp add: map_of_eq_None_iff)
  then have "times (AList.update v (VertexLog v) visit) = insert (- 1) (times visit)"
    by (auto simp: set_update_fresh times_def VertexLog_def)
  moreover have "Max (insert 0 (insert (- 1) (times visit))) = Max (insert 0 (times visit))"
    by (cases "times visit = {}") simp_all
  ultimately show ?thesis
    using None by (simp add: log_def last_time_Max del: Max_insert)
next
  case (Some l)
  then show ?thesis by (simp add: log_def)
qed

lemma last_time_assign_same:
  assumes "\<And>l. discovery_time (f l) = discovery_time l" "\<And>l. finish_time (f l) = finish_time l"
  shows "last_time (assign v f visit) = last_time visit"
  using assms by (auto simp: assign_def last_time_Max times_update_same split: option.splits)

lemma last_time_assign_stamp:
  assumes "map_of visit v = Some l" and "last_time visit \<le> t"
    and "discovery_time (f l) \<le> t" and "finish_time (f l) \<le> t"
    and "discovery_time (f l) = t \<or> finish_time (f l) = t"
  shows "last_time (assign v f visit) = t"
proof (rule antisym)
  have "\<And>x. x \<in> times (AList.update v (f l) visit) \<Longrightarrow> x \<le> t"
    using times_update_subset[of v "f l" visit] assms(2-4) times_le_last_time[of _ visit]
    by fastforce
  moreover have "0 \<le> t" using assms(2) last_time_nonneg[of visit] by simp
  ultimately show "last_time (assign v f visit) \<le> t"
    using assms(1) by (simp add: assign_def last_time_Max)
  have "t \<in> times (AList.update v (f l) visit)"
    using assms(5) times_update_mem[of "f l" v visit] by auto
  then show "t \<le> last_time (assign v f visit)"
    using assms(1) by (simp add: assign_def times_le_last_time)
qed

lemma map_of_log_Some: "\<exists>l. map_of (snd (log v visit)) v = Some l \<and>
    l = (case map_of visit v of None \<Rightarrow> VertexLog v | Some l \<Rightarrow> l)"
  by (simp add: map_of_log split: option.splits)

lemma finish_time_log_le:
  assumes "map_of (snd (log v visit)) v = Some l"
  shows "finish_time l \<le> last_time visit" "discovery_time l \<le> last_time visit"
  using map_of_le_last_time[OF assms] by simp_all

lemma last_time_discover: "last_time (discover v visit) = last_time visit + 1"
proof -
  obtain l where l: "map_of (snd (log v visit)) v = Some l"
    using map_of_log_Some[of v visit] by blast
  show ?thesis
    unfolding discover_def Let_def
    by (rule last_time_assign_stamp[OF l]) (use finish_time_log_le[OF l] in simp_all)
qed

lemma is_discovered_dtime: "is_discovered visit v \<longleftrightarrow> dtime visit v \<noteq> - 1"
  by (simp add: is_discovered_def dtime_def split: option.splits)

lemma dtime_le_last_time: "dtime visit v \<le> last_time visit"
  using map_of_le_last_time(1)[of visit v] last_time_nonneg[of visit]
  by (auto simp: dtime_def split: option.splits)

lemma ftime_le_last_time: "ftime visit v \<le> last_time visit"
  using map_of_le_last_time(2)[of visit v] last_time_nonneg[of visit]
  by (auto simp: ftime_def split: option.splits)

lemma dfs_discover: 
  "assign s (\<lambda>l. l\<lparr>discovery_time := last_time (snd (log s visit)) + 1\<rparr>) (snd (log s visit))
     = discover s visit"
  by (simp add: discover_def)

lemma dtime_discover: "dtime (discover s visit) u = (if u = s then last_time visit + 1 else dtime visit u)"
  by (simp add: dtime_def discover_def map_of_assign map_of_log split: option.splits)

lemma ftime_discover: "ftime (discover s visit) u = ftime visit u"
  by (simp add: ftime_def discover_def map_of_assign map_of_log VertexLog_def split: option.splits)

lemma parent_of_discover: "parent_of (discover s visit) u = parent_of visit u"
  by (simp add: parent_of_def discover_def map_of_assign map_of_log VertexLog_def split: option.splits)

lemma dtime_set_parent: "dtime (set_parent x p visit) u = dtime visit u"
  by (simp add: dtime_def set_parent_def map_of_assign map_of_log VertexLog_def split: option.splits)

lemma ftime_set_parent: "ftime (set_parent x p visit) u = ftime visit u"
  by (simp add: ftime_def set_parent_def map_of_assign map_of_log VertexLog_def split: option.splits)

lemma parent_of_set_parent:
  "parent_of (set_parent x p visit) u = (if u = x then Some p else parent_of visit u)"
  by (simp add: parent_of_def set_parent_def map_of_assign map_of_log split: option.splits)

lemma last_time_set_parent: "last_time (set_parent x p visit) = last_time visit"
  by (simp add: set_parent_def last_time_assign_same)

lemma dtime_finish: "dtime (finish s visit) u = dtime visit u"
  by (simp add: dtime_def finish_def map_of_assign split: option.splits)

lemma parent_of_finish: "parent_of (finish s visit) u = parent_of visit u"
  by (simp add: parent_of_def finish_def map_of_assign split: option.splits)

lemma ftime_finish:
  "is_discovered visit s \<Longrightarrow>
   ftime (finish s visit) u = (if u = s then last_time visit + 1 else ftime visit u)"
  by (simp add: ftime_def finish_def map_of_assign is_discovered_def split: option.splits)

lemma last_time_finish:
  assumes "is_discovered visit s"
  shows "last_time (finish s visit) = last_time visit + 1"
proof -
  from assms obtain l where l: "map_of visit s = Some l"
    by (auto simp: is_discovered_def split: option.splits)
  show ?thesis
    unfolding finish_def
    by (rule last_time_assign_stamp[OF l]) (use map_of_le_last_time[OF l] in simp_all)
qed

lemma dfs_Suc:
  "dfs (Suc n) g s visit =
     (if is_empty g then Some (Inl EmptyGraphError, visit)
      else case adj g s of
             Inl e \<Rightarrow> Some (Inl e, discover s visit)
           | Inr ns \<Rightarrow>
               (case dfs_neighbors n g s ns (discover s visit) of
                  None \<Rightarrow> None
                | Some (Inl e, visit3) \<Rightarrow> Some (Inl e, visit3)
                | Some (Inr _, visit3) \<Rightarrow> Some (Inr (), finish s visit3)))"
  by (simp add: Let_def discover_def finish_def split: sum.splits option.splits prod.splits)

lemma dfs_neighbors_Cons:
  "dfs_neighbors n g s (x # ns) visit =
     (if \<not> is_discovered visit x then
        (case dfs n g x (set_parent x s visit) of
           None \<Rightarrow> None
         | Some (Inl e, visit2) \<Rightarrow> Some (Inl e, visit2)
         | Some (Inr _, visit2) \<Rightarrow> dfs_neighbors n g s ns visit2)
      else dfs_neighbors n g s ns visit)"
  by (simp add: Let_def set_parent_def)

section \<open>Depth first search: what a call leaves behind\<close>

lemma explored_refl: "explored s v v"
  by (simp add: explored_def newly_def unchanged_def)

lemma dfs_post_finish:
  assumes und: "\<not> is_discovered v s" and ex: "explored s (discover s v) v3"
  shows "dfs_post s v (finish s v3)"
proof -
  let ?v2 = "discover s v" and ?v' = "finish s v3"
  from ex have L: "last_time ?v2 \<le> last_time v3"
    and fr: "\<And>u. \<not> newly ?v2 v3 u \<Longrightarrow> unchanged ?v2 v3 u"
    and nw: "\<And>u. newly ?v2 v3 u \<Longrightarrow> stamped ?v2 v3 u \<and>
        (\<exists>p. parent_of v3 u = Some p \<and> (p = s \<or> (newly ?v2 v3 p \<and> inside v3 u p)))"
    by (auto simp: explored_def)
  have L2: "last_time ?v2 = last_time v + 1" by (rule last_time_discover)
  have "\<not> newly ?v2 v3 s" by (simp add: newly_def is_discovered_discover)
  then have us: "unchanged ?v2 v3 s" by (rule fr)
  then have ds3: "dtime v3 s = last_time v + 1" 
    and fs3: "ftime v3 s = ftime v s" and ps3: "parent_of v3 s = parent_of v s"
    by (simp_all add: unchanged_def dtime_discover ftime_discover parent_of_discover)
  have disc3: "is_discovered v3 s"
    using ds3 last_time_nonneg[of v] by (simp add: is_discovered_dtime)
  have d': "dtime ?v' u = dtime v3 u" for u by (rule dtime_finish)
  have p': "parent_of ?v' u = parent_of v3 u" for u by (rule parent_of_finish)
  have f': "ftime ?v' u = (if u = s then last_time v3 + 1 else ftime v3 u)" for u
    using disc3 by (rule ftime_finish)
  have L': "last_time ?v' = last_time v3 + 1"
    using disc3 by (rule last_time_finish)
  have n: "newly v ?v' u \<longleftrightarrow> u = s \<or> newly ?v2 v3 u" for u
    using und disc3
    by (auto simp: newly_def is_discovered_dtime d' dtime_discover)
  have "newly v ?v' s" by (simp add: n)
  moreover have "dtime ?v' s = last_time v + 1" by (simp add: d' ds3)
  moreover have "ftime ?v' s = last_time ?v'" by (simp add: f' L')
  moreover have "parent_of ?v' s = parent_of v s" by (simp add: p' ps3)
  moreover have "unchanged v ?v' u" if "\<not> newly v ?v' u" for u
  proof -
    from that have "u \<noteq> s" "\<not> newly ?v2 v3 u" by (simp_all add: n)
    with fr[of u] show ?thesis
      by (simp add: unchanged_def d' p' f' dtime_discover ftime_discover parent_of_discover)
  qed
  moreover have "stamped v ?v' u \<and>
        (u \<noteq> s \<longrightarrow> (\<exists>p. parent_of ?v' u = Some p \<and> newly v ?v' p \<and> inside ?v' u p))"
    if nu: "newly v ?v' u" for u
  proof (cases "u = s")
    case True
    with L L2 show ?thesis
      by (simp add: stamped_def d' f' L' ds3)
  next
    case False
    with nu have n23: "newly ?v2 v3 u" by (simp add: n)
    from nw[OF n23] have st: "stamped ?v2 v3 u" 
      and "\<exists>p. parent_of v3 u = Some p \<and> (p = s \<or> (newly ?v2 v3 p \<and> inside v3 u p))"
      by blast+
    then obtain p where p: "parent_of v3 u = Some p" "p = s \<or> (newly ?v2 v3 p \<and> inside v3 u p)"
      by blast
    have "stamped v ?v' u"
      using st False L2 by (simp add: stamped_def d' f' L')
    moreover have "newly v ?v' p \<and> inside ?v' u p"
    proof (cases "p = s")
      case True
      with st False L2 show ?thesis
        by (simp add: n inside_def d' f' ds3 stamped_def)
    next
      case False
      with p(2) have "newly ?v2 v3 p" "inside v3 u p" by blast+
      with False \<open>u \<noteq> s\<close> show ?thesis
        by (simp add: n inside_def d' f')
    qed
    ultimately show ?thesis using p(1) by (simp add: p')
  qed
  ultimately show ?thesis
    unfolding dfs_post_def by blast
qed

lemma explored_step:
  assumes und: "\<not> is_discovered v x"
    and post: "dfs_post x (set_parent x s v) v2"
    and ex: "explored s v2 v'"
  shows "explored s v v'"
proof -
  let ?v1 = "set_parent x s v"
  have L1: "last_time ?v1 = last_time v" by (rule last_time_set_parent)
  have disc1: "is_discovered ?v1 u = is_discovered v u" for u
    by (simp add: is_discovered_dtime dtime_set_parent)
  from post have nx: "newly ?v1 v2 x" and px: "parent_of v2 x = Some s"
    and fr1: "\<And>u. \<not> newly ?v1 v2 u \<Longrightarrow> unchanged ?v1 v2 u"
    and nw1: "\<And>u. newly ?v1 v2 u \<Longrightarrow> stamped ?v1 v2 u \<and>
        (u \<noteq> x \<longrightarrow> (\<exists>p. parent_of v2 u = Some p \<and> newly ?v1 v2 p \<and> inside v2 u p))"
    by (auto simp: dfs_post_def parent_of_set_parent)
  from ex have L2: "last_time v2 \<le> last_time v'"
    and fr2: "\<And>u. \<not> newly v2 v' u \<Longrightarrow> unchanged v2 v' u"
    and nw2: "\<And>u. newly v2 v' u \<Longrightarrow> stamped v2 v' u \<and>
        (\<exists>p. parent_of v' u = Some p \<and> (p = s \<or> (newly v2 v' p \<and> inside v' u p)))"
    by (auto simp: explored_def)
  have keep: "unchanged v2 v' u" if "is_discovered v2 u" for u
    using that by (intro fr2) (simp add: newly_def)
  have mono2: "is_discovered v' u" if "is_discovered v2 u" for u
    using keep[OF that] that by (simp add: unchanged_def is_discovered_dtime)
  have mono1: "is_discovered v2 u" if "is_discovered v u" for u
  proof -
    from that have "\<not> newly ?v1 v2 u" by (simp add: newly_def disc1)
    from fr1[OF this] that show ?thesis
      by (simp add: unchanged_def is_discovered_dtime dtime_set_parent)
  qed
  have n: "newly v v' u \<longleftrightarrow> newly ?v1 v2 u \<or> newly v2 v' u" for u
    using mono1[of u] mono2[of u] by (auto simp: newly_def disc1)
  have L12: "last_time v \<le> last_time v2"
    using nw1[OF nx] dtime_le_last_time[of v2 x] by (simp add: stamped_def L1)
  have "last_time v \<le> last_time v'"
    using L12 L2 by simp
  moreover have "unchanged v v' u" if "\<not> newly v v' u" for u
  proof -
    from that have a: "\<not> newly ?v1 v2 u" and b: "\<not> newly v2 v' u" by (simp_all add: n)
    from a nx have "u \<noteq> x" by blast
    with fr1[OF a] fr2[OF b] show ?thesis
      by (simp add: unchanged_def dtime_set_parent ftime_set_parent parent_of_set_parent)
  qed
  moreover have "stamped v v' u \<and>
        (\<exists>p. parent_of v' u = Some p \<and> (p = s \<or> (newly v v' p \<and> inside v' u p)))"
    if nu: "newly v v' u" for u
  proof (cases "newly ?v1 v2 u")
    case True
    then have du: "is_discovered v2 u" by (simp add: newly_def)
    from keep[OF du] have k: "dtime v' u = dtime v2 u" "ftime v' u = ftime v2 u"
      "parent_of v' u = parent_of v2 u"
      by (simp_all add: unchanged_def)
    from nw1[OF True] have st: "stamped ?v1 v2 u"
      and par: "u \<noteq> x \<longrightarrow> (\<exists>p. parent_of v2 u = Some p \<and> newly ?v1 v2 p \<and> inside v2 u p)"
      by blast+
    have "stamped v v' u"
      using st L2 by (simp add: stamped_def k L1)
    moreover have "\<exists>p. parent_of v' u = Some p \<and> (p = s \<or> (newly v v' p \<and> inside v' u p))"
    proof (cases "u = x")
      case True
      with k(3) px show ?thesis by simp
    next
      case False
      with par obtain p where p: "parent_of v2 u = Some p" "newly ?v1 v2 p" "inside v2 u p"
        by blast
      from p(2) have "is_discovered v2 p" by (simp add: newly_def)
      from keep[OF this] p(3) have "inside v' u p"
        by (simp add: inside_def unchanged_def k)
      with p(1,2) show ?thesis by (simp add: k n)
    qed
    ultimately show ?thesis by blast
  next
    case False
    with nu have n2: "newly v2 v' u" by (simp add: n)
    from nw2[OF n2] have st: "stamped v2 v' u"
      and par: "\<exists>p. parent_of v' u = Some p \<and> (p = s \<or> (newly v2 v' p \<and> inside v' u p))"
      by blast+
    have "stamped v v' u"
      using st L12 by (simp add: stamped_def)
    moreover from par have
      "\<exists>p. parent_of v' u = Some p \<and> (p = s \<or> (newly v v' p \<and> inside v' u p))"
      by (auto simp: n)
    ultimately show ?thesis by blast
  qed
  ultimately show ?thesis
    unfolding explored_def by blast
qed

lemma explored_neighbors:
  assumes P: "\<And>x v v'. dfs n g x v = Some (Inr (), v') \<Longrightarrow> \<not> is_discovered v x \<Longrightarrow> dfs_post x v v'"
  shows "dfs_neighbors n g s ns v = Some (Inr (), v') \<Longrightarrow> explored s v v'"
proof (induction ns arbitrary: v)
  case Nil
  then show ?case by (simp add: explored_refl)
next
  case (Cons x ns)
  show ?case
  proof (cases "is_discovered v x")
    case True
    with Cons.prems have "dfs_neighbors n g s ns v = Some (Inr (), v')"
      by (simp add: dfs_neighbors_Cons del: dfs_neighbors.simps)
    then show ?thesis by (rule Cons.IH)
  next
    case False
    with Cons.prems obtain v2 where v2: "dfs n g x (set_parent x s v) = Some (Inr (), v2)"
      "dfs_neighbors n g s ns v2 = Some (Inr (), v')"
      by (auto simp: dfs_neighbors_Cons simp del: dfs_neighbors.simps
          split: option.splits sum.splits prod.splits)
    have "\<not> is_discovered (set_parent x s v) x"
      using False by (simp add: is_discovered_dtime dtime_set_parent)
    from P[OF v2(1) this] have "dfs_post x (set_parent x s v) v2" .
    from explored_step[OF False this Cons.IH[OF v2(2)]] show ?thesis .
  qed
qed

lemma dfs_post_Suc:
  assumes Q: "\<And>ns v v'. dfs_neighbors n g s ns v = Some (Inr (), v') \<Longrightarrow> explored s v v'"
    and run: "dfs (Suc n) g s v = Some (Inr (), v')" and und: "\<not> is_discovered v s"
  shows "dfs_post s v v'"
proof -
  from run obtain ns v3 where "dfs_neighbors n g s ns (discover s v) = Some (Inr (), v3)"
    and v': "v' = finish s v3"
    by (auto simp: dfs_Suc simp del: dfs.simps
        split: if_splits option.splits sum.splits prod.splits)
  from Q[OF this(1)] have "explored s (discover s v) v3" .
  from dfs_post_finish[OF und this] v' show ?thesis by simp
qed

lemma dfs_post:
  "dfs n g s v = Some (Inr (), v') \<Longrightarrow> \<not> is_discovered v s \<Longrightarrow> dfs_post s v v'"
proof (induction n arbitrary: s v v')
  case 0
  then show ?case by simp
next
  case (Suc n)
  show ?case
  proof (rule dfs_post_Suc[OF _ Suc.prems])
    fix ns w w'
    assume "dfs_neighbors n g s ns w = Some (Inr (), w')"
    then show "explored s w w'"
      by (rule explored_neighbors[rotated]) (rule Suc.IH)
  qed
qed

lemma dfs_post_mono:
  assumes "dfs_post s v v'" and "is_discovered v u"
  shows "is_discovered v' u"
proof -
  from assms(2) have "\<not> newly v v' u" by (simp add: newly_def)
  with assms(1) have "unchanged v v' u" by (simp add: dfs_post_def)
  with assms(2) show ?thesis by (simp add: unchanged_def is_discovered_dtime)
qed

lemma undiscovered_mono:
  "(\<And>u. is_discovered v u \<Longrightarrow> is_discovered v' u) \<Longrightarrow> undiscovered g v' \<subseteq> undiscovered g v"
  by (auto simp: undiscovered_def)

lemma card_undiscovered_mono:
  "(\<And>u. is_discovered v u \<Longrightarrow> is_discovered v' u) \<Longrightarrow>
   card (undiscovered g v') \<le> card (undiscovered g v)"
proof (rule card_mono)
  show "finite (undiscovered g v)" by (simp add: undiscovered_def)
  assume "\<And>u. is_discovered v u \<Longrightarrow> is_discovered v' u"
  then show "undiscovered g v' \<subseteq> undiscovered g v" by (rule undiscovered_mono)
qed

lemma adj_wf:
  assumes "wf_digraph g" and "has_vertex g s"
  shows "\<exists>ns. adj g s = Inr ns \<and> distinct ns \<and> (\<forall>x \<in> set ns. has_vertex g x)"
proof -
  from assms(2) obtain ns where "map_of g s = Some ns"
    by (auto simp: has_vertex_map_of)
  with assms(1) show ?thesis
    by (auto simp: adj_def wf_digraph_iff)
qed

lemma dfs_neighbors_total:
  assumes P: "\<And>x v. has_vertex g x \<Longrightarrow> \<not> is_discovered v x \<Longrightarrow> card (undiscovered g v) \<le> n \<Longrightarrow>
      \<exists>v'. dfs n g x v = Some (Inr (), v')"
  shows "\<forall>x \<in> set ns. has_vertex g x \<Longrightarrow> card (undiscovered g v) \<le> n \<Longrightarrow>
      \<exists>v'. dfs_neighbors n g s ns v = Some (Inr (), v')"
proof (induction ns arbitrary: v)
  case Nil
  then show ?case by simp
next
  case (Cons x ns)
  show ?case
  proof (cases "is_discovered v x")
    case True
    with Cons.IH[of v] Cons.prems show ?thesis
      by (simp add: dfs_neighbors_Cons del: dfs_neighbors.simps)
  next
    case False
    let ?v1 = "set_parent x s v"
    have d1: "is_discovered ?v1 u = is_discovered v u" for u
      by (simp add: is_discovered_dtime dtime_set_parent)
    then have u1: "undiscovered g ?v1 = undiscovered g v"
      by (simp add: undiscovered_def)
    from Cons.prems have hx: "has_vertex g x" by simp
    from P[OF hx, of ?v1] False Cons.prems(2) obtain v2 where
      v2: "dfs n g x ?v1 = Some (Inr (), v2)"
      by (auto simp: d1 u1)
    from False have "\<not> is_discovered ?v1 x" by (simp add: d1)
    from dfs_post[OF v2 this] have post: "dfs_post x ?v1 v2" .
    have "card (undiscovered g v2) \<le> card (undiscovered g ?v1)"
      by (rule card_undiscovered_mono) (rule dfs_post_mono[OF post])
    with Cons.prems(2) have "card (undiscovered g v2) \<le> n" by (simp add: u1)
    with Cons.IH[of v2] Cons.prems(1) obtain v' where
      "dfs_neighbors n g s ns v2 = Some (Inr (), v')" by auto
    with False v2 show ?thesis
      by (simp add: dfs_neighbors_Cons del: dfs_neighbors.simps)
  qed
qed

lemma undiscovered_discover:
  assumes "has_vertex g s" and "\<not> is_discovered v s"
  shows "card (undiscovered g (discover s v)) < card (undiscovered g v)"
  using assms by (intro undiscovered_discover_less) (simp_all add: has_vertex_def)

lemma dfs_total:
  assumes wf: "wf_digraph g"
  shows "has_vertex g s \<Longrightarrow> \<not> is_discovered v s \<Longrightarrow> card (undiscovered g v) \<le> n \<Longrightarrow>
      \<exists>v'. dfs n g s v = Some (Inr (), v')"
proof (induction n arbitrary: s v)
  case 0
  from undiscovered_discover[OF "0.prems"(1,2)] "0.prems"(3) show ?case by simp
next
  case (Suc n)
  from adj_wf[OF wf Suc.prems(1)] obtain ns where ns: "adj g s = Inr ns"
    "\<forall>x \<in> set ns. has_vertex g x" by blast
  from Suc.prems(1) have ne: "\<not> is_empty g"
    by (auto simp: is_empty_def has_vertex_def)
  from undiscovered_discover[OF Suc.prems(1,2)] Suc.prems(3)
  have "card (undiscovered g (discover s v)) \<le> n" by simp
  from dfs_neighbors_total[of g n ns "discover s v" s, OF Suc.IH ns(2) this]
  obtain v3 where "dfs_neighbors n g s ns (discover s v) = Some (Inr (), v3)" by blast
  with ns(1) ne show ?case
    by (simp add: dfs_Suc del: dfs.simps)
qed

lemma card_undiscovered_le: "card (undiscovered g v) \<le> length g"
proof -
  have "card (undiscovered g v) \<le> card (set (map fst g))"
    by (rule card_mono) (auto simp: undiscovered_def)
  also have "\<dots> \<le> length (map fst g)" by (rule card_length)
  finally show ?thesis by simp
qed

lemma Visit_fresh [simp]: "\<not> is_discovered Visit u" "dtime Visit u = - 1" "ftime Visit u = - 1"
  "parent_of Visit u = None" "last_time Visit = 0"
  by (simp_all add: Visit_def is_discovered_def dtime_def ftime_def parent_of_def last_time_def)

lemma dfs_fresh_bracket:
  assumes post: "dfs_post s Visit visit"
  shows "(d, v) \<in> (parent_rel visit)\<^sup>+ \<Longrightarrow>
     dtime visit v < dtime visit d \<and> dtime visit d < ftime visit d \<and> ftime visit d < ftime visit v"
proof (induction rule: trancl_induct)
  case (base v)
  then have p: "parent_of visit d = Some v" by (simp add: parent_rel_def)
  have nd: "newly Visit visit d"
  proof (rule ccontr)
    assume "\<not> newly Visit visit d"
    with post have "unchanged Visit visit d" by (simp add: dfs_post_def)
    with p show False by (simp add: unchanged_def)
  qed
  from post p have "d \<noteq> s" by (auto simp: dfs_post_def)
  with post nd p show ?case
    by (auto simp: dfs_post_def stamped_def inside_def)
next
  case (step v w)
  then have p: "parent_of visit v = Some w" by (simp add: parent_rel_def)
  have nv: "newly Visit visit v"
  proof (rule ccontr)
    assume "\<not> newly Visit visit v"
    with post have "unchanged Visit visit v" by (simp add: dfs_post_def)
    with p show False by (simp add: unchanged_def)
  qed
  from post p have "v \<noteq> s" by (auto simp: dfs_post_def)
  with post nv p have "dtime visit w < dtime visit v \<and> ftime visit v < ftime visit w"
    by (auto simp: dfs_post_def inside_def)
  with step.IH show ?case by simp
qed

text \<open>
  C2: on a graph built through the class, with a registered source and a stack deep enough
  for as many nested calls as the graph has vertices, \<open>dfs(s)\<close> on a fresh visit returns
  a visit in which every discovered vertex has its discovery time before its finish
  time, and every descendant \<open>d\<close> of a vertex \<open>v\<close> in the parent tree (\<open>v\<close> is reached from
  \<open>d\<close> by one or more parent links) is bracketed by it:
  \<open>v.discovery_time < d.discovery_time < d.finish_time < v.finish_time\<close>.
\<close>

theorem dfs_parenthesis:
  assumes "wf_digraph g" and "has_vertex g s" and "length g \<le> n"
  shows "\<exists>visit. dfs n g s Visit = Some (Inr (), visit) \<and>
           (\<forall>v. is_discovered visit v \<longrightarrow> dtime visit v < ftime visit v) \<and>
           (\<forall>d v. (d, v) \<in> (parent_rel visit)\<^sup>+ \<longrightarrow>
              dtime visit v < dtime visit d \<and> dtime visit d < ftime visit d \<and>
              ftime visit d < ftime visit v)"
proof -
  have "card (undiscovered g Visit) \<le> n"
    using card_undiscovered_le[of g Visit] assms(3) by simp
  from dfs_total[OF assms(1,2) _ this] obtain visit where
    run: "dfs n g s Visit = Some (Inr (), visit)" by auto
  from dfs_post[OF run] have post: "dfs_post s Visit visit" by simp
  have "dtime visit v < ftime visit v" if "is_discovered visit v" for v
  proof -
    from that have "newly Visit visit v" by (simp add: newly_def)
    with post show ?thesis by (simp add: dfs_post_def stamped_def)
  qed
  with run dfs_fresh_bracket[OF post] show ?thesis by blast
qed

theorem dfs_parenthesis_witness:
  "\<exists>visit. dfs 5 [(1::nat, [2, 3]), (2, [4, 1]), (3, [4]), (4, [2]), (5, [1])] 1 Visit
              = Some (Inr (), visit) \<and>
           (\<forall>v. is_discovered visit v \<longrightarrow> dtime visit v < ftime visit v) \<and>
           (\<forall>d v. (d, v) \<in> (parent_rel visit)\<^sup>+ \<longrightarrow>
              dtime visit v < dtime visit d \<and> dtime visit d < ftime visit d \<and>
              ftime visit d < ftime visit v)"
proof (rule dfs_parenthesis)
  show "wf_digraph [(1::nat, [2, 3]), (2, [4, 1]), (3, [4]), (4, [2]), (5, [1])]"
    by (simp add: wf_digraph_def has_vertex_def)
  show "has_vertex [(1::nat, [2, 3]), (2, [4, 1]), (3, [4]), (4, [2]), (5, [1])] 1"
    by (simp add: has_vertex_def)
  show "length [(1::nat, [2::nat, 3]), (2, [4, 1]), (3, [4]), (4, [2]), (5, [1])] \<le> 5"
    by simp
qed

text \<open>
  C10: on a non-empty graph, \<open>dfs\<close> with a source that is not registered raises the
  exception of the adjacency lookup, and the visit it was given is left changed: it holds
  a log for the source (a fresh one if the visit had none) whose discovery time is the
  clock of the visit plus one; the logs of all other vertices are as before.
\<close>

theorem dfs_unregistered_source:
  assumes "\<not> is_empty g" and "\<not> has_vertex g source"
  shows "\<exists>visit'. dfs (Suc n) g source visit = Some (Inl NotFoundError, visit') \<and>
           visit' \<noteq> visit \<and> is_discovered visit' source \<and>
           map_of visit' source =
             Some ((case map_of visit source of None \<Rightarrow> VertexLog source | Some l \<Rightarrow> l)
                     \<lparr>discovery_time := last_time visit + 1\<rparr>) \<and>
           (\<forall>u. u \<noteq> source \<longrightarrow> map_of visit' u = map_of visit u)"
proof -
  let ?v = "discover source visit"
  from assms(2) have "adj g source = Inl NotFoundError"
    by (simp add: adj_def has_vertex_map_of)
  with assms(1) have "dfs (Suc n) g source visit = Some (Inl NotFoundError, ?v)"
    by (simp add: dfs_Suc del: dfs.simps)
  moreover have "?v \<noteq> visit"
  proof
    assume "?v = visit"
    then have "dtime ?v source = dtime visit source" by simp
    with dtime_le_last_time[of visit source] show False
      by (simp add: dtime_discover)
  qed
  moreover have "is_discovered ?v source"
    by (simp add: is_discovered_discover)
  moreover have "map_of ?v source =
             Some ((case map_of visit source of None \<Rightarrow> VertexLog source | Some l \<Rightarrow> l)
                     \<lparr>discovery_time := last_time visit + 1\<rparr>)"
    by (simp add: discover_def map_of_assign map_of_log split: option.splits)
  moreover have "\<forall>u. u \<noteq> source \<longrightarrow> map_of ?v u = map_of visit u"
    by (simp add: discover_def map_of_assign map_of_log)
  ultimately show ?thesis by blast
qed

theorem dfs_unregistered_source_witness:
  "\<exists>visit'. dfs (Suc 0) [(1::nat, [])] 2 Visit = Some (Inl NotFoundError, visit') \<and>
      visit' \<noteq> Visit \<and> is_discovered visit' 2 \<and>
      map_of visit' 2 = Some \<lparr>log_vertex = 2, discovery_time = 1, finish_time = - 1,
                                parent = None, distance = None\<rparr>"
proof -
  have "\<not> is_empty [(1::nat, [] :: nat list)]" and "\<not> has_vertex [(1::nat, [])] 2"
    by (simp_all add: is_empty_def has_vertex_def)
  from dfs_unregistered_source[OF this, of 0 Visit] show ?thesis
    by (auto simp: Visit_def VertexLog_def last_time_def simp del: dfs.simps)
qed

section \<open>The factory \<open>dag\<close>\<close>

lemma has_vertex_keys: "map fst g' = map fst g \<Longrightarrow> has_vertex g' = has_vertex g"
  by (simp add: has_vertex_def fun_eq_iff)

lemma dag_targets_result:
  assumes "has_vertex g v" and "\<forall>w \<in> set ws. has_vertex g w"
  shows "\<exists>g'. dag_targets v ws g = Inr g' \<and> map fst g' = map fst g \<and>
           (wf_digraph g \<longrightarrow> wf_digraph g') \<and>
           (\<forall>x. map_option set (map_of g' x) =
                map_option (\<lambda>ts. set ts \<union> (if x = v then set ws else {})) (map_of g x))"
  using assms
proof (induction ws arbitrary: g)
  case Nil
  then show ?case by (simp add: option.map_ident)
next
  case (Cons w ws)
  from Cons.prems have "has_vertex g v" "has_vertex g w" by auto
  from add_edge_result[OF this] obtain g1 where g1: "add_edge v w g = (Inr (), g1)"
    "map fst g1 = map fst g"
    "\<And>x. map_of g1 x =
        (if x = v then map_option (\<lambda>ts. if w \<in> set ts then ts else ts @ [w]) (map_of g v)
         else map_of g x)"
    by blast
  have wf1: "wf_digraph g \<longrightarrow> wf_digraph g1"
    using wf_digraph_add_edge[of g v w] g1(1) by simp
  from Cons.prems have "has_vertex g1 v" "\<forall>w \<in> set ws. has_vertex g1 w"
    by (simp_all add: has_vertex_keys[OF g1(2)])
  from Cons.IH[OF this] obtain g' where g': "dag_targets v ws g1 = Inr g'"
    "map fst g' = map fst g1" "wf_digraph g1 \<longrightarrow> wf_digraph g'"
    "\<And>x. map_option set (map_of g' x) =
        map_option (\<lambda>ts. set ts \<union> (if x = v then set ws else {})) (map_of g1 x)"
    by blast
  have "map_option set (map_of g' x) =
          map_option (\<lambda>ts. set ts \<union> (if x = v then set (w # ws) else {})) (map_of g x)" for x
    unfolding g'(4) g1(3)
    by (cases "map_of g v"; cases "map_of g x") auto
  with g1(1,2) g'(1,2,3) wf1 show ?case by simp
qed

lemma dag_sources_result:
  assumes "rest = [] \<or> drop i vl = tl rest"
    and "\<forall>w \<in> set rest. has_vertex g w"
  shows "\<exists>g'. dag_sources vl i rest g = Inr g' \<and> map fst g' = map fst g \<and>
           (wf_digraph g \<longrightarrow> wf_digraph g') \<and>
           (\<forall>x. map_option set (map_of g' x) =
                map_option (\<lambda>ts. set ts \<union> later rest x) (map_of g x))"
  using assms
proof (induction rest arbitrary: i g)
  case Nil
  then show ?case by (simp add: option.map_ident)
next
  case (Cons v vs)
  from Cons.prems(1) have d: "drop i vl = vs" by simp
  from Cons.prems(2) have "has_vertex g v" "\<forall>w \<in> set vs. has_vertex g w" by auto
  from dag_targets_result[OF this] obtain g1 where g1: "dag_targets v vs g = Inr g1"
    "map fst g1 = map fst g" "wf_digraph g \<longrightarrow> wf_digraph g1"
    "\<And>x. map_option set (map_of g1 x) =
        map_option (\<lambda>ts. set ts \<union> (if x = v then set vs else {})) (map_of g x)"
    by blast
  have "vs = [] \<or> drop (i + 1) vl = tl vs"
    using d by (metis drop_Suc Suc_eq_plus1 tl_drop)
  moreover from Cons.prems(2) have "\<forall>w \<in> set vs. has_vertex g1 w"
    by (simp add: has_vertex_keys[OF g1(2)])
  ultimately obtain g' where g': "dag_sources vl (i + 1) vs g1 = Inr g'"
    "map fst g' = map fst g1" "wf_digraph g1 \<longrightarrow> wf_digraph g'"
    "\<And>x. map_option set (map_of g' x) = map_option (\<lambda>ts. set ts \<union> later vs x) (map_of g1 x)"
    using Cons.IH[of "i + 1" g1] by blast
  have "map_option set (map_of g' x) =
          map_option (\<lambda>ts. set ts \<union> later (v # vs) x) (map_of g x)" for x
  proof (cases "map_of g x")
    case None
    with g1(4)[of x] g'(4)[of x] show ?thesis by (cases "map_of g1 x") auto
  next
    case (Some ts)
    with g1(4)[of x] obtain ts1 where "map_of g1 x = Some ts1"
      "set ts1 = set ts \<union> (if x = v then set vs else {})"
      by (cases "map_of g1 x") auto
    with g'(4)[of x] Some show ?thesis by (cases "map_of g' x") auto
  qed
  with g1(1,2,3) g'(1,2,3) d show ?case by simp
qed

lemma map_of_fold_add_vertex:
  "map_of (fold add_vertex vs g) x =
     (if x \<in> set vs \<and> map_of g x = None then Some [] else map_of g x)"
proof (induction vs arbitrary: g)
  case Nil
  show ?case by simp
next
  case (Cons v vs)
  have "map_of (add_vertex v g) x = (if x = v \<and> map_of g x = None then Some [] else map_of g x)"
    by (auto simp: add_vertex_def has_vertex_map_of update_conv')
  then show ?case by (auto simp: Cons.IH)
qed

lemma wf_fold_add_vertex: "wf_digraph g \<Longrightarrow> wf_digraph (fold add_vertex vs g)"
  by (induction vs arbitrary: g) (simp_all add: wf_digraph_add_vertex)

lemma later_subset: "later vs x \<subseteq> set vs"
  by (induction vs) auto

lemma later_empty: "x \<notin> set vs \<Longrightarrow> later vs x = {}"
  by (induction vs) auto

lemma later_distinct:
  assumes "distinct vs" and "i < length vs" and "j < length vs"
  shows "vs ! j \<in> later vs (vs ! i) \<longleftrightarrow> i < j"
  using assms
proof (induction vs arbitrary: i j)
  case Nil
  then show ?case by simp
next
  case (Cons v vs)
  show ?case
  proof (cases i)
    case 0
    with Cons.prems show ?thesis
      by (cases j) (auto simp: later_empty)
  next
    case (Suc i')
    with Cons.prems Cons.IH[of i'] later_subset[of vs "vs ! i'"] show ?thesis
      by (cases j) auto
  qed
qed

lemma later_irrefl: "distinct vs \<Longrightarrow> x \<notin> later vs x"
  by (induction vs) (auto simp: later_empty)

lemma has_edge_map_of:
  assumes "map_of g u = Some ts" and "has_vertex g w"
  shows "has_edge g u w = Inr (w \<in> set ts)"
  using assms by (simp add: has_edge_def has_vertex_map_of)

lemma later_iff:
  "w \<in> later vs x \<longleftrightarrow> (\<exists>i j. i < j \<and> j < length vs \<and> vs ! i = x \<and> vs ! j = w)"
proof (induction vs)
  case Nil
  show ?case by simp
next
  case (Cons v vs)
  show ?case
  proof
    assume "w \<in> later (v # vs) x"
    then consider "x = v" "w \<in> set vs" | "w \<in> later vs x"
      by (auto split: if_splits)
    then show "\<exists>i j. i < j \<and> j < length (v # vs) \<and> (v # vs) ! i = x \<and> (v # vs) ! j = w"
    proof cases
      case 1
      from 1(2) obtain k where "k < length vs" "vs ! k = w" by (auto simp: in_set_conv_nth)
      with 1(1) have "0 < Suc k \<and> Suc k < length (v # vs) \<and> (v # vs) ! 0 = x \<and> (v # vs) ! Suc k = w"
        by simp
      then show ?thesis by blast
    next
      case 2
      with Cons.IH obtain i j where "i < j" "j < length vs" "vs ! i = x" "vs ! j = w" by blast
      then have "Suc i < Suc j \<and> Suc j < length (v # vs) \<and> (v # vs) ! Suc i = x \<and>
          (v # vs) ! Suc j = w"
        by simp
      then show ?thesis by blast
    qed
  next
    assume "\<exists>i j. i < j \<and> j < length (v # vs) \<and> (v # vs) ! i = x \<and> (v # vs) ! j = w"
    then obtain i j where ij: "i < j" "j < length (v # vs)" "(v # vs) ! i = x" "(v # vs) ! j = w"
      by blast
    from ij(1) obtain j' where j': "j = Suc j'" by (cases j) simp_all
    with ij have w: "j' < length vs" "vs ! j' = w" by simp_all
    show "w \<in> later (v # vs) x"
    proof (cases i)
      case 0
      with ij(3) w show ?thesis by auto
    next
      case (Suc i')
      with ij j' have "i' < j'" "vs ! i' = x" by simp_all
      with w Cons.IH have "w \<in> later vs x" by blast
      then show ?thesis by simp
    qed
  qed
qed

lemma later_refl_iff: "(\<exists>x. x \<in> later vs x) \<longleftrightarrow> \<not> distinct vs"
proof
  assume "\<exists>x. x \<in> later vs x"
  then obtain x i j where "i < j" "j < length vs" "vs ! i = x" "vs ! j = x"
    unfolding later_iff by blast
  then have "i < length vs \<and> j < length vs \<and> i \<noteq> j \<and> vs ! i = vs ! j" by simp
  then show "\<not> distinct vs" unfolding distinct_conv_nth by blast
next
  assume "\<not> distinct vs"
  then obtain i j where ij: "i < length vs" "j < length vs" "i \<noteq> j" "vs ! i = vs ! j"
    unfolding distinct_conv_nth by blast
  show "\<exists>x. x \<in> later vs x"
  proof (cases "i < j")
    case True
    with ij have "vs ! i \<in> later vs (vs ! i)" unfolding later_iff by metis
    then show ?thesis by blast
  next
    case False
    with ij have "j < i" by simp
    with ij have "vs ! j \<in> later vs (vs ! j)" unfolding later_iff by metis
    then show ?thesis by blast
  qed
qed

lemma dag_result:
  "\<exists>g. dag vs = Inr g \<and> wf_digraph g \<and>
           (\<forall>x. map_option set (map_of g x) = (if x \<in> set vs then Some (later vs x) else None))"
proof -
  let ?g0 = "fold add_vertex vs DiGraph"
  have m0: "map_of ?g0 x = (if x \<in> set vs then Some [] else None)" for x
    by (simp add: map_of_fold_add_vertex DiGraph_def)
  have wf0: "wf_digraph ?g0"
    by (rule wf_fold_add_vertex) (rule wf_digraph_empty)
  show ?thesis
  proof (cases "length vs > 1")
    case True
    have "vs = [] \<or> drop 1 vs = tl vs" by (simp add: drop_Suc)
    moreover have "\<forall>w \<in> set vs. has_vertex ?g0 w"
      by (simp add: has_vertex_map_of m0)
    ultimately obtain g where g: "dag_sources vs 1 vs ?g0 = Inr g"
      "wf_digraph ?g0 \<longrightarrow> wf_digraph g"
      "\<And>x. map_option set (map_of g x) = map_option (\<lambda>ts. set ts \<union> later vs x) (map_of ?g0 x)"
      using dag_sources_result[of vs 1 vs ?g0] by blast
    from g(3) have "map_option set (map_of g x) = (if x \<in> set vs then Some (later vs x) else None)"
      for x by (simp add: m0)
    with g(1,2) wf0 True show ?thesis
      by (simp add: dag_def Let_def)
  next
    case False
    then have "later vs x = {}" for x
      by (cases vs) (auto simp: later_empty)
    then have "map_option set (map_of ?g0 x) = (if x \<in> set vs then Some (later vs x) else None)"
      for x by (simp add: m0)
    with wf0 False show ?thesis
      by (simp add: dag_def Let_def)
  qed
qed

text \<open>
  C9, as the code has it: for every list of vertices \<open>dag\<close> returns a graph over exactly
  these vertices in which the vertex at position \<open>i\<close> has an edge to the vertex at every
  later position, and every edge of the graph goes from some position to a later one. The
  graph has a self-loop exactly when the list repeats a vertex; for a list without
  repetition the vertex at position \<open>i\<close> has an edge to the vertex at position \<open>j\<close> exactly
  when \<open>i < j\<close>, so no edge goes backwards and there is no self-loop.
\<close>

theorem dag_forward_edges:
  "\<exists>g. dag vs = Inr g \<and> verteces g = set vs \<and> wf_digraph g \<and>
     (\<forall>i j. i < j \<and> j < length vs \<longrightarrow> has_edge g (vs ! i) (vs ! j) = Inr True) \<and>
     (\<forall>u w. has_edge g u w = Inr True \<longrightarrow>
        (\<exists>i j. i < j \<and> j < length vs \<and> vs ! i = u \<and> vs ! j = w)) \<and>
     (has_self_loops g \<longleftrightarrow> \<not> distinct vs) \<and>
     (distinct vs \<longrightarrow>
        (\<forall>i j. i < length vs \<and> j < length vs \<longrightarrow>
           has_edge g (vs ! i) (vs ! j) = Inr (i < j)))"
proof -
  from dag_result[of vs] obtain g where g: "dag vs = Inr g" "wf_digraph g"
    and m: "\<And>x. map_option set (map_of g x) = (if x \<in> set vs then Some (later vs x) else None)"
    by blast
  have hv: "has_vertex g x \<longleftrightarrow> x \<in> set vs" for x
    using m[of x] by (cases "map_of g x") (auto simp: has_vertex_map_of split: if_splits)
  then have vg: "verteces g = set vs"
    by (auto simp: verteces_def has_vertex_def)
  have ts: "\<exists>ts. map_of g x = Some ts \<and> set ts = later vs x" if "x \<in> set vs" for x
    using that m[of x] by (cases "map_of g x") (auto split: if_splits)
  have he: "has_edge g (vs ! i) (vs ! j) = Inr (vs ! j \<in> later vs (vs ! i))"
    if "i < length vs" "j < length vs" for i j
  proof -
    from that(1) ts[of "vs ! i"] obtain ts where t: "map_of g (vs ! i) = Some ts"
      "set ts = later vs (vs ! i)" by auto
    from that(2) have "has_vertex g (vs ! j)" by (simp add: hv)
    from has_edge_map_of[OF t(1) this] t(2) show ?thesis by simp
  qed
  have fwd: "has_edge g (vs ! i) (vs ! j) = Inr True" if "i < j \<and> j < length vs" for i j
  proof -
    from that have "vs ! j \<in> later vs (vs ! i)" unfolding later_iff by blast
    with he[of i j] that show ?thesis by simp
  qed
  have only: "\<exists>i j. i < j \<and> j < length vs \<and> vs ! i = u \<and> vs ! j = w"
    if e: "has_edge g u w = Inr True" for u w
  proof -
    from e obtain ts where t: "map_of g u = Some ts" "w \<in> set ts"
      by (auto simp: has_edge_def split: option.splits if_splits)
    from t(1) have "has_vertex g u" by (simp add: has_vertex_map_of)
    then have "u \<in> set vs" by (simp add: hv)
    from ts[OF this] t have "w \<in> later vs u" by auto
    then show ?thesis unfolding later_iff .
  qed
  have loops: "has_self_loops g \<longleftrightarrow> \<not> distinct vs"
  proof -
    have "has_self_loops g \<longleftrightarrow> (\<exists>x. x \<in> later vs x)"
    proof
      assume "has_self_loops g"
      then obtain x ts where "map_of g x = Some ts" "x \<in> set ts"
        by (auto simp: has_self_loops_def list_ex_iff split: option.splits)
      with m[of x] have "x \<in> later vs x" by (auto split: if_splits)
      then show "\<exists>x. x \<in> later vs x" by blast
    next
      assume "\<exists>x. x \<in> later vs x"
      then obtain x where x: "x \<in> later vs x" by blast
      with later_subset[of vs x] have xv: "x \<in> set vs" by blast
      from ts[OF xv] x obtain ts where t: "map_of g x = Some ts" "x \<in> set ts" by auto
      from t(1) have "x \<in> set (map fst g)"
        using hv[of x] xv by (simp add: has_vertex_def)
      then obtain e where e: "e \<in> set g" "fst e = x" by auto
      with t have "case map_of g (fst e) of None \<Rightarrow> False | Some targets \<Rightarrow> fst e \<in> set targets"
        by simp
      with e(1) show "has_self_loops g"
        unfolding has_self_loops_def list_ex_iff by (simp add: bexI[of _ e])
    qed
    then show ?thesis by (simp add: later_refl_iff)
  qed
  have exact: "has_edge g (vs ! i) (vs ! j) = Inr (i < j)"
    if "distinct vs" "i < length vs \<and> j < length vs" for i j
    using he[of i j] that by (simp add: later_distinct)
  show ?thesis
    apply (intro exI[of _ g] conjI allI impI)
    subgoal by (rule g(1))
    subgoal by (rule vg)
    subgoal by (rule g(2))
    subgoal by (rule fwd)
    subgoal by (rule only)
    subgoal by (rule loops)
    subgoal by (rule exact)
    done
qed

theorem dag_forward_edges_witness:
  "(\<exists>g. dag [1::nat, 2, 3] = Inr g \<and> verteces g = set [1, 2, 3] \<and> wf_digraph g \<and>
      has_edge g 1 3 = Inr True \<and> has_edge g 3 1 = Inr False \<and> \<not> has_self_loops g) \<and>
   (\<exists>g. dag [1::nat, 2, 1] = Inr g \<and> has_edge g 1 2 = Inr True \<and> has_edge g 2 1 = Inr True \<and>
      has_self_loops g)"
proof -
  from dag_forward_edges[of "[1::nat, 2, 3]"] obtain g where g: "dag [1::nat, 2, 3] = Inr g"
    "verteces g = set [1, 2, 3]" "wf_digraph g"
    "has_self_loops g \<longleftrightarrow> \<not> distinct [1::nat, 2, 3]"
    "distinct [1::nat, 2, 3] \<longrightarrow>
       (\<forall>i j. i < length [1::nat, 2, 3] \<and> j < length [1::nat, 2, 3] \<longrightarrow>
          has_edge g ([1, 2, 3] ! i) ([1, 2, 3] ! j) = Inr (i < j))"
    by blast
  from g(5) have e: "\<And>i j. i < length [1::nat, 2, 3] \<and> j < length [1::nat, 2, 3] \<Longrightarrow>
          has_edge g ([1, 2, 3] ! i) ([1, 2, 3] ! j) = Inr (i < j)"
    by simp
  from e[of 0 2] e[of 2 0]
  have a: "has_edge g 1 3 = Inr True" "has_edge g 3 1 = Inr False" by simp_all
  from g(4) have b: "\<not> has_self_loops g" by simp
  from dag_forward_edges[of "[1::nat, 2, 1]"] obtain h where h: "dag [1::nat, 2, 1] = Inr h"
    "\<forall>i j. i < j \<and> j < length [1::nat, 2, 1] \<longrightarrow>
        has_edge h ([1, 2, 1] ! i) ([1, 2, 1] ! j) = Inr True"
    "has_self_loops h \<longleftrightarrow> \<not> distinct [1::nat, 2, 1]"
    by blast
  from h(2)[rule_format, of 0 1] h(2)[rule_format, of 1 2]
  have c: "has_edge h 1 2 = Inr True" "has_edge h 2 1 = Inr True" by simp_all
  from h(3) have d: "has_self_loops h" by simp
  from g(1,2,3) a b have one: "\<exists>g. dag [1::nat, 2, 3] = Inr g \<and> verteces g = set [1, 2, 3] \<and>
      wf_digraph g \<and> has_edge g 1 3 = Inr True \<and> has_edge g 3 1 = Inr False \<and>
      \<not> has_self_loops g"
    by blast
  from h(1) c d have two: "\<exists>g. dag [1::nat, 2, 1] = Inr g \<and> has_edge g 1 2 = Inr True \<and>
      has_edge g 2 1 = Inr True \<and> has_self_loops g"
    by blast
  from one two show ?thesis by (rule conjI)
qed

text \<open>
  The claim as written (never a self-loop, for every input list) fails for a list that
  repeats a vertex: the second occurrence is a later position of the first, so the vertex
  is linked to itself.
\<close>

theorem dag_repeated_vertex_counterexample:
  "dag [1::nat, 1] = Inr [(1, [1])] \<and> has_self_loops [(1::nat, [1])]"
  by (simp add: dag_def DiGraph_def add_vertex_def has_vertex_def add_edge_def has_self_loops_def)

section \<open>Reversing the edges\<close>

lemma reverse_targets_result:
  assumes "has_vertex g source" and "\<forall>t \<in> set targets. has_vertex g t"
  shows "\<exists>g'. reverse_targets source targets g = (Inr (), g') \<and> map fst g' = map fst g \<and>
           (wf_digraph g \<longrightarrow> wf_digraph g') \<and>
           (\<forall>x. map_option set (map_of g' x) =
                map_option (\<lambda>ts. set ts \<union> (if x \<in> set targets then {source} else {})) (map_of g x))"
  using assms
proof (induction targets arbitrary: g)
  case Nil
  then show ?case by (simp add: option.map_ident)
next
  case (Cons t targets)
  from Cons.prems have "has_vertex g t" "has_vertex g source" by auto
  from add_edge_result[OF this] obtain g1 where g1: "add_edge t source g = (Inr (), g1)"
    "map fst g1 = map fst g"
    "\<And>x. map_of g1 x =
        (if x = t then map_option (\<lambda>ts. if source \<in> set ts then ts else ts @ [source]) (map_of g t)
         else map_of g x)"
    by blast
  have wf1: "wf_digraph g \<longrightarrow> wf_digraph g1"
    using wf_digraph_add_edge[of g t source] g1(1) by simp
  from Cons.prems have "has_vertex g1 source" "\<forall>t \<in> set targets. has_vertex g1 t"
    by (simp_all add: has_vertex_keys[OF g1(2)])
  from Cons.IH[OF this] obtain g' where g': "reverse_targets source targets g1 = (Inr (), g')"
    "map fst g' = map fst g1" "wf_digraph g1 \<longrightarrow> wf_digraph g'"
    "\<And>x. map_option set (map_of g' x) =
        map_option (\<lambda>ts. set ts \<union> (if x \<in> set targets then {source} else {})) (map_of g1 x)"
    by blast
  have "map_option set (map_of g' x) =
          map_option (\<lambda>ts. set ts \<union> (if x \<in> set (t # targets) then {source} else {})) (map_of g x)"
    for x
    unfolding g'(4) g1(3)
    by (cases "map_of g t"; cases "map_of g x") auto
  with g1(1,2) g'(1,2,3) wf1 show ?case by simp
qed

lemma reverse_sources_result:
  assumes "\<forall>(s, ts) \<in> set old. has_vertex g s \<and> (\<forall>t \<in> set ts. has_vertex g t)"
  shows "\<exists>g'. reverse_sources old g = (Inr (), g') \<and> map fst g' = map fst g \<and>
           (wf_digraph g \<longrightarrow> wf_digraph g') \<and>
           (\<forall>x. map_option set (map_of g' x) =
                map_option (\<lambda>ts. set ts \<union> {s. \<exists>ts'. (s, ts') \<in> set old \<and> x \<in> set ts'}) (map_of g x))"
  using assms
proof (induction old arbitrary: g)
  case Nil
  then show ?case by (simp add: option.map_ident)
next
  case (Cons e old)
  obtain s ts where e: "e = (s, ts)" by (cases e)
  with Cons.prems have "has_vertex g s" "\<forall>t \<in> set ts. has_vertex g t" by auto
  from reverse_targets_result[OF this] obtain g1 where
    g1: "reverse_targets s ts g = (Inr (), g1)" "map fst g1 = map fst g"
    "wf_digraph g \<longrightarrow> wf_digraph g1"
    "\<And>x. map_option set (map_of g1 x) =
        map_option (\<lambda>ts'. set ts' \<union> (if x \<in> set ts then {s} else {})) (map_of g x)"
    by blast
  from Cons.prems have "\<forall>(s, ts) \<in> set old. has_vertex g1 s \<and> (\<forall>t \<in> set ts. has_vertex g1 t)"
    by (auto simp: has_vertex_keys[OF g1(2)])
  from Cons.IH[OF this] obtain g' where g': "reverse_sources old g1 = (Inr (), g')"
    "map fst g' = map fst g1" "wf_digraph g1 \<longrightarrow> wf_digraph g'"
    "\<And>x. map_option set (map_of g' x) =
        map_option (\<lambda>ts. set ts \<union> {s. \<exists>ts'. (s, ts') \<in> set old \<and> x \<in> set ts'}) (map_of g1 x)"
    by blast
  have "map_option set (map_of g' x) =
          map_option (\<lambda>ts. set ts \<union> {s. \<exists>ts'. (s, ts') \<in> set (e # old) \<and> x \<in> set ts'}) (map_of g x)"
    for x
  proof (cases "map_of g x")
    case None
    with g1(4)[of x] g'(4)[of x] show ?thesis by (cases "map_of g1 x") auto
  next
    case (Some us)
    with g1(4)[of x] obtain us1 where u1: "map_of g1 x = Some us1"
      "set us1 = set us \<union> (if x \<in> set ts then {s} else {})"
      by (cases "map_of g1 x") auto
    with g'(4)[of x] obtain us' where "map_of g' x = Some us'"
      "set us' = set us1 \<union> {s. \<exists>ts'. (s, ts') \<in> set old \<and> x \<in> set ts'}"
      by (cases "map_of g' x") auto
    with u1 Some e show ?thesis by auto
  qed
  with g1(1,2,3) g'(1,2,3) e show ?case by simp
qed

lemma fold_update_empty:
  "map_of (fold (\<lambda>v edges. AList.update v [] edges) ks g) x =
     (if x \<in> set ks then Some [] else map_of g x)"
  by (induction ks arbitrary: g) (auto simp: update_conv')

lemma wf_fold_update_empty:
  "wf_digraph g \<Longrightarrow> wf_digraph (fold (\<lambda>v edges. AList.update v [] edges) ks g)"
  by (induction ks arbitrary: g) (simp_all add: wf_digraph_update)

lemma reverse_result:
  fixes g :: "'v digraph"
  assumes "wf_digraph g"
  shows "\<exists>g'. reverse g = (Inr (), g') \<and> wf_digraph g' \<and> verteces g' = verteces g \<and>
           edges g' = (edges g)\<inverse>"
proof -
  let ?g0 = "fold (\<lambda>v edges. AList.update v [] edges) (map fst g) [] :: 'v digraph"
  have m0: "map_of ?g0 x = (if has_vertex g x then Some [] else None)" for x
    by (simp add: fold_update_empty has_vertex_def)
  have hv0: "has_vertex ?g0 x = has_vertex g x" for x
    by (simp add: has_vertex_map_of m0)
  have wf0: "wf_digraph ?g0"
    by (rule wf_fold_update_empty) (simp add: wf_digraph_def)
  from assms have dk: "distinct (map fst g)"
    and tg: "\<And>s ts. map_of g s = Some ts \<Longrightarrow> \<forall>t \<in> set ts. has_vertex g t"
    by (auto simp: wf_digraph_iff)
  have mem: "(s, ts) \<in> set g \<longleftrightarrow> map_of g s = Some ts" for s ts
    using dk by simp
  have "has_vertex g s \<and> (\<forall>t \<in> set ts. has_vertex g t)" if "(s, ts) \<in> set g" for s ts
  proof -
    from that have "map_of g s = Some ts" by (simp add: mem)
    with tg[OF this] show ?thesis by (simp add: has_vertex_map_of)
  qed
  then have "\<forall>(s, ts) \<in> set g. has_vertex ?g0 s \<and> (\<forall>t \<in> set ts. has_vertex ?g0 t)"
    unfolding hv0 by blast
  from reverse_sources_result[OF this] obtain g' where
    "reverse_sources g ?g0 = (Inr (), g') \<and> map fst g' = map fst ?g0 \<and>
       (wf_digraph ?g0 \<longrightarrow> wf_digraph g') \<and>
       (\<forall>x. map_option set (map_of g' x) =
          map_option (\<lambda>ts. set ts \<union> {s. \<exists>ts'. (s, ts') \<in> set g \<and> x \<in> set ts'}) (map_of ?g0 x))"
    ..
  then have g': "reverse_sources g ?g0 = (Inr (), g')"
    "map fst g' = map fst ?g0" "wf_digraph ?g0 \<longrightarrow> wf_digraph g'"
    "\<And>x. map_option set (map_of g' x) =
        map_option (\<lambda>ts. set ts \<union> {s. \<exists>ts'. (s, ts') \<in> set g \<and> x \<in> set ts'}) (map_of ?g0 x)"
    by simp_all
  have m': "map_option set (map_of g' x) =
      (if has_vertex g x then Some {s. (s, x) \<in> edges g} else None)" for x
    using g'(4)[of x] by (simp add: m0 mem edges_def)
  have hv': "has_vertex g' x = has_vertex g x" for x
    using m'[of x] by (cases "map_of g' x") (auto simp: has_vertex_map_of split: if_splits)
  have "edges g' = (edges g)\<inverse>"
  proof (rule set_eqI, clarify)
    fix u w
    show "(u, w) \<in> edges g' \<longleftrightarrow> (u, w) \<in> (edges g)\<inverse>"
    proof (cases "has_vertex g u")
      case True
      with m'[of u] obtain ts where "map_of g' u = Some ts" "set ts = {s. (s, u) \<in> edges g}"
        by (cases "map_of g' u") auto
      then show ?thesis by (auto simp: edges_def)
    next
      case False
      with m'[of u] have "map_of g' u = None" by simp
      moreover have "(w, u) \<notin> edges g"
        using False tg by (auto simp: edges_def)
      ultimately show ?thesis by (simp add: edges_def)
    qed
  qed
  moreover have "verteces g' = verteces g"
    using hv' by (auto simp: has_vertex_def verteces_def)
  ultimately show ?thesis
    using g'(1,3) wf0 by (auto simp: reverse_def)
qed

lemma digraph_eq_edges:
  assumes "verteces g = verteces h" and "edges g = edges h"
  shows "digraph_eq g h"
  unfolding digraph_eq_iff
proof (intro conjI ballI)
  show "verteces g = verteces h" by fact
  fix v assume v: "v \<in> verteces g"
  then obtain ts where ts: "map_of g v = Some ts"
    using map_of_key_Some[of v g] by (auto simp: verteces_def)
  from v assms(1) obtain us where us: "map_of h v = Some us"
    using map_of_key_Some[of v h] by (auto simp: verteces_def)
  have "set ts = {w. (v, w) \<in> edges g}" using ts by (auto simp: edges_def)
  also have "\<dots> = set us" using us assms(2) by (auto simp: edges_def)
  finally show "\<exists>ts us. adj g v = Inr ts \<and> adj h v = Inr us \<and> set ts = set us"
    using ts us by (simp add: adj_Inr_iff)
qed

lemma has_edge_edges:
  assumes "has_vertex g u" and "has_vertex g w"
  shows "has_edge g u w = Inr ((u, w) \<in> edges g)"
proof -
  from assms(1) obtain ts where "map_of g u = Some ts"
    by (auto simp: has_vertex_map_of)
  with assms show ?thesis
    by (simp add: has_edge_def edges_def)
qed

text \<open>
  C6: on a graph built through the class, \<open>reverse()\<close> returns without an exception, keeps
  the vertices and has the edge \<open>(w, u)\<close> exactly where the graph of the call had the edge
  \<open>(u, w)\<close>; calling it twice gives a graph equal to the original one under \<open>__eq__\<close>.
\<close>

theorem reverse_involution:
  assumes "wf_digraph g"
  shows "\<exists>g1 g2. reverse g = (Inr (), g1) \<and> reverse g1 = (Inr (), g2) \<and>
           digraph_eq g2 g \<and> verteces g1 = verteces g \<and> wf_digraph g1 \<and>
           (\<forall>u w. has_vertex g u \<and> has_vertex g w \<longrightarrow> has_edge g1 w u = has_edge g u w)"
proof -
  from reverse_result[OF assms] obtain g1 where g1: "reverse g = (Inr (), g1)" "wf_digraph g1"
    "verteces g1 = verteces g" "edges g1 = (edges g)\<inverse>" by blast
  from reverse_result[OF g1(2)] obtain g2 where g2: "reverse g1 = (Inr (), g2)"
    "verteces g2 = verteces g1" "edges g2 = (edges g1)\<inverse>" by blast
  have "digraph_eq g2 g"
    by (rule digraph_eq_edges) (simp_all add: g1 g2)
  moreover have "has_edge g1 w u = has_edge g u w" if "has_vertex g u \<and> has_vertex g w" for u w
  proof -
    from that g1(3) have "has_vertex g1 w" "has_vertex g1 u"
      by (simp_all add: has_vertex_def verteces_def)
    with that show ?thesis
      by (simp add: has_edge_edges g1(4))
  qed
  ultimately show ?thesis using g1 g2 by blast
qed

theorem reverse_involution_witness:
  "\<exists>g1 g2. reverse [(1::nat, [2, 3]), (2, [3]), (3, [])] = (Inr (), g1) \<and>
     reverse g1 = (Inr (), g2) \<and> digraph_eq g2 [(1::nat, [2, 3]), (2, [3]), (3, [])] \<and>
     verteces g1 = verteces [(1::nat, [2, 3]), (2, [3]), (3, [])] \<and> wf_digraph g1 \<and>
     has_edge g1 3 1 = Inr True \<and> has_edge g1 1 3 = Inr False"
proof -
  let ?g = "[(1::nat, [2, 3]), (2, [3]), (3, [])]"
  have wf: "wf_digraph ?g"
    by (simp add: wf_digraph_def has_vertex_def)
  from reverse_involution[OF wf] obtain g1 g2 where r: "reverse ?g = (Inr (), g1)"
    "reverse g1 = (Inr (), g2)" "digraph_eq g2 ?g" "verteces g1 = verteces ?g" "wf_digraph g1"
    "\<forall>u w. has_vertex ?g u \<and> has_vertex ?g w \<longrightarrow> has_edge g1 w u = has_edge ?g u w"
    by blast
  from r(6)[rule_format, of 1 3] r(6)[rule_format, of 3 1]
  have "has_edge g1 3 1 = Inr True" "has_edge g1 1 3 = Inr False"
    by (simp_all add: has_vertex_def has_edge_def)
  with r show ?thesis by blast
qed

section \<open>Breadth first search: what the loop leaves behind\<close>

lemma fst_log: "fst (log v visit) = (case map_of visit v of None \<Rightarrow> VertexLog v | Some l \<Rightarrow> l)"
  by (simp add: log_def split: option.splits)

lemma parent_fst_log: "parent (fst (log v visit)) = parent_of visit v"
  by (simp add: fst_log parent_of_def VertexLog_def split: option.splits)

lemma dtime_log [simp]: "dtime (snd (log v visit)) u = dtime visit u"
  by (simp add: dtime_def map_of_log VertexLog_def split: option.splits)

lemma ftime_log [simp]: "ftime (snd (log v visit)) u = ftime visit u"
  by (simp add: ftime_def map_of_log VertexLog_def split: option.splits)

lemma parent_of_log [simp]: "parent_of (snd (log v visit)) u = parent_of visit u"
  by (simp add: parent_of_def map_of_log VertexLog_def split: option.splits)

lemma bfs_neighbors_Cons:
  "bfs_neighbors source vertex (n # ns) visit queue =
     bfs_neighbors source vertex ns
       (if is_None (parent_of visit n) \<and> n \<noteq> source then set_parent n vertex visit
        else snd (log n visit))
       (queue @ [n])"
  by (simp add: Let_def case_prod_beta parent_fst_log set_parent_def)

lemma bfs_neighbors_result:
  "\<exists>visit'. bfs_neighbors source vertex ns visit queue = (visit', queue @ ns) \<and>
     last_time visit' = last_time visit \<and>
     (\<forall>u. dtime visit' u = dtime visit u \<and> ftime visit' u = ftime visit u \<and>
        parent_of visit' u =
          (if is_None (parent_of visit u) \<and> u \<noteq> source \<and> u \<in> set ns then Some vertex
           else parent_of visit u))"
proof (induction ns arbitrary: visit queue)
  case Nil
  show ?case by simp
next
  case (Cons n ns)
  let ?v = "if is_None (parent_of visit n) \<and> n \<noteq> source then set_parent n vertex visit
        else snd (log n visit)"
  have l: "last_time ?v = last_time visit" by (simp add: last_time_set_parent)
  have d: "dtime ?v u = dtime visit u" "ftime ?v u = ftime visit u" for u
    by (simp_all add: dtime_set_parent ftime_set_parent)
  have p: "parent_of ?v u =
      (if is_None (parent_of visit u) \<and> u \<noteq> source \<and> u = n then Some vertex else parent_of visit u)"
    for u by (auto simp: parent_of_set_parent)
  from Cons.IH[of ?v "queue @ [n]"] obtain visit' where
    v': "bfs_neighbors source vertex ns ?v (queue @ [n]) = (visit', (queue @ [n]) @ ns)"
    "last_time visit' = last_time ?v"
    "\<And>u. dtime visit' u = dtime ?v u \<and> ftime visit' u = ftime ?v u \<and>
        parent_of visit' u =
          (if is_None (parent_of ?v u) \<and> u \<noteq> source \<and> u \<in> set ns then Some vertex
           else parent_of ?v u)"
    by blast
  have "parent_of visit' u =
          (if is_None (parent_of visit u) \<and> u \<noteq> source \<and> u \<in> set (n # ns) then Some vertex
           else parent_of visit u)" for u
    using v'(3)[of u] unfolding p by (auto split: if_splits)
  with v'(1,2) v'(3) show ?case
    by (simp add: bfs_neighbors_Cons l d del: bfs_neighbors.simps)
qed

lemma bfs_loop_Cons:
  "bfs_loop g source visit (vertex # queue) =
     (if is_discovered visit vertex then bfs_loop g source visit queue
      else case adj g vertex of
             Inl e \<Rightarrow> Inl e
           | Inr ns \<Rightarrow>
               bfs_loop g source (fst (bfs_neighbors source vertex ns (discover vertex visit) queue))
                 (queue @ ns))"
proof -
  have "snd (bfs_neighbors source vertex ns v queue) = queue @ ns" for ns v
    using bfs_neighbors_result[of source vertex ns v queue] by auto
  then show ?thesis
    by (auto simp: Let_def case_prod_beta split: sum.splits)
qed

lemma bfs_frame_refl: "bfs_frame source visit visit"
  by (simp add: bfs_frame_def)

lemma bfs_expand:
  "\<exists>visit2.
    bfs_neighbors source vertex ns (discover vertex visit) queue = (visit2, queue @ ns) \<and>
    last_time visit2 = last_time visit + 1 \<and>
    (\<forall>u. dtime visit2 u = (if u = vertex then last_time visit + 1 else dtime visit u)) \<and>
    (\<forall>u. ftime visit2 u = ftime visit u) \<and>
    (\<forall>u. parent_of visit2 u =
          (if is_None (parent_of visit u) \<and> u \<noteq> source \<and> u \<in> set ns then Some vertex
           else parent_of visit u)) \<and>
    (\<forall>u. is_discovered visit2 u \<longleftrightarrow> u = vertex \<or> is_discovered visit u)"
proof -
  from bfs_neighbors_result[of source vertex ns "discover vertex visit" queue]
  obtain visit2 where v2:
    "bfs_neighbors source vertex ns (discover vertex visit) queue = (visit2, queue @ ns)"
    "last_time visit2 = last_time (discover vertex visit)"
    "\<And>u. dtime visit2 u = dtime (discover vertex visit) u \<and>
        ftime visit2 u = ftime (discover vertex visit) u \<and>
        parent_of visit2 u =
          (if is_None (parent_of (discover vertex visit) u) \<and> u \<noteq> source \<and> u \<in> set ns
           then Some vertex else parent_of (discover vertex visit) u)"
    by blast
  have d: "dtime visit2 u = (if u = vertex then last_time visit + 1 else dtime visit u)" for u
    using v2(3)[of u] by (simp add: dtime_discover)
  have "is_discovered visit2 u \<longleftrightarrow> u = vertex \<or> is_discovered visit u" for u
    using last_time_nonneg[of visit] by (simp add: is_discovered_dtime d)
  moreover have "ftime visit2 u = ftime visit u" for u
    using v2(3)[of u] by (simp add: ftime_discover)
  moreover have "parent_of visit2 u =
          (if is_None (parent_of visit u) \<and> u \<noteq> source \<and> u \<in> set ns then Some vertex
           else parent_of visit u)" for u
    using v2(3)[of u] by (simp add: parent_of_discover)
  moreover have "last_time visit2 = last_time visit + 1"
    using v2(2) by (simp add: last_time_discover)
  ultimately show ?thesis using v2(1) d by blast
qed

lemma bfs_frame_step:
  assumes und: "\<not> is_discovered visit vertex"
    and v2: "bfs_neighbors source vertex ns (discover vertex visit) queue = (visit2, queue2)"
    and fr: "bfs_frame source visit2 visit'"
  shows "bfs_frame source visit visit'"
proof -
  obtain w where w:
    "bfs_neighbors source vertex ns (discover vertex visit) queue = (w, queue @ ns)"
    "last_time w = last_time visit + 1"
    "\<And>u. dtime w u = (if u = vertex then last_time visit + 1 else dtime visit u)"
    "\<And>u. ftime w u = ftime visit u"
    "\<And>u. parent_of w u =
          (if is_None (parent_of visit u) \<and> u \<noteq> source \<and> u \<in> set ns then Some vertex
           else parent_of visit u)"
    "\<And>u. is_discovered w u \<longleftrightarrow> u = vertex \<or> is_discovered visit u"
    using bfs_expand[of source vertex ns visit queue] by blast
  from w(1) v2 have [simp]: "w = visit2" by simp
  from fr have f: "last_time visit2 \<le> last_time visit'"
    "parent_of visit' source = parent_of visit2 source"
    "\<And>u. ftime visit' u = ftime visit2 u"
    "\<And>u. \<not> is_None (parent_of visit2 u) \<Longrightarrow> parent_of visit' u = parent_of visit2 u"
    "\<And>u. is_discovered visit2 u \<Longrightarrow> dtime visit' u = dtime visit2 u"
    "\<And>u. \<not> is_discovered visit2 u \<Longrightarrow> is_discovered visit' u \<Longrightarrow>
        last_time visit2 < dtime visit' u"
    by (simp_all add: bfs_frame_def)
  have "last_time visit \<le> last_time visit'"
    using f(1) w(2) by simp
  moreover have "parent_of visit' source = parent_of visit source"
    using f(2) w(5)[of source] by simp
  moreover have "ftime visit' u = ftime visit u" for u
    using f(3)[of u] w(4)[of u] by simp
  moreover have "parent_of visit' u = parent_of visit u" if "\<not> is_None (parent_of visit u)" for u
    using that f(4)[of u] w(5)[of u] by simp
  moreover have "dtime visit' u = dtime visit u" if "is_discovered visit u" for u
  proof -
    from that und have "u \<noteq> vertex" by blast
    with that f(5)[of u] w(3)[of u] w(6)[of u] show ?thesis by simp
  qed
  moreover have "last_time visit < dtime visit' u"
    if "\<not> is_discovered visit u \<and> is_discovered visit' u" for u
  proof (cases "u = vertex")
    case True
    with f(5)[of u] w(3)[of u] w(6)[of u] show ?thesis by simp
  next
    case False
    with that w(6)[of u] have "\<not> is_discovered visit2 u" by simp
    from f(6)[OF this] that w(2) show ?thesis by simp
  qed
  ultimately show ?thesis
    unfolding bfs_frame_def by blast
qed

lemma bfs_loop_frame:
  "bfs_loop g source visit queue = Inr visit' \<Longrightarrow> bfs_frame source visit visit'"
proof (induction g source visit queue rule: bfs_loop.induct)
  case (1 g source visit)
  then show ?case by (simp add: bfs_frame_refl)
next
  case (2 g source visit vertex queue)
  show ?case
  proof (cases "is_discovered visit vertex")
    case True
    with "2.prems" "2.IH"(2) show ?thesis by simp
  next
    case False
    with "2.prems" obtain ns where ns: "adj g vertex = Inr ns"
      by (cases "adj g vertex") (simp_all add: Let_def)
    obtain visit2 queue2 where v2:
      "bfs_neighbors source vertex ns (discover vertex visit) queue = (visit2, queue2)"
      by (cases "bfs_neighbors source vertex ns (discover vertex visit) queue")
    with False ns "2.prems" have "bfs_loop g source visit2 queue2 = Inr visit'"
      by (simp add: Let_def)
    with "2.IH"(1)[OF False refl ns v2[symmetric]] have "bfs_frame source visit2 visit'" .
    from bfs_frame_step[OF False v2 this] show ?thesis .
  qed
qed




lemma is_None_simps [simp]: "is_None None" "is_None (Some p) \<longleftrightarrow> p = None"
  by (simp_all add: is_None_def)


lemma bfs_loop_total:
  "\<forall>q \<in> set queue. has_vertex g q \<Longrightarrow> wf_digraph g \<Longrightarrow>
   \<exists>visit'. bfs_loop g source visit queue = Inr visit'"
proof (induction g source visit queue rule: bfs_loop.induct)
  case (1 g source visit)
  show ?case by simp
next
  case (2 g source visit vertex queue)
  show ?case
  proof (cases "is_discovered visit vertex")
    case True
    with "2.prems" "2.IH"(2) show ?thesis by simp
  next
    case False
    from "2.prems"(1) have "has_vertex g vertex" by simp
    from adj_wf[OF "2.prems"(2) this] obtain ns where ns: "adj g vertex = Inr ns"
      "\<forall>x \<in> set ns. has_vertex g x" by blast
    obtain visit2 where v2:
      "bfs_neighbors source vertex ns (discover vertex visit) queue = (visit2, queue @ ns)"
      using bfs_expand[of source vertex ns visit queue] by blast
    from "2.prems"(1) ns(2) have "\<forall>q \<in> set (queue @ ns). has_vertex g q" by auto
    from "2.IH"(1)[OF False refl ns(1) v2[symmetric] this "2.prems"(2)]
    obtain visit' where "bfs_loop g source visit2 (queue @ ns) = Inr visit'" by blast
    with False ns(1) v2 show ?thesis by (simp add: Let_def)
  qed
qed

section \<open>Invariants of the visit under the traversals\<close>

lemma clock_ok_Visit: "clock_ok Visit"
  by (simp add: clock_ok_def Visit_def times_Nil)

lemma times_log: "times (snd (log v visit)) \<subseteq> insert (- 1) (times visit)"
proof (cases "map_of visit v")
  case None
  then have "v \<notin> fst ` set visit" by (simp add: map_of_eq_None_iff)
  then show ?thesis
    using None by (auto simp: log_def set_update_fresh times_def VertexLog_def)
next
  case (Some l)
  then show ?thesis by (auto simp: log_def)
qed

lemma clock_ok_log: "clock_ok visit \<Longrightarrow> clock_ok (snd (log v visit))"
  using times_log[of v visit] by (auto simp: clock_ok_def)

lemma clock_ok_assign:
  assumes "clock_ok visit"
    and "\<And>l. map_of visit v = Some l \<Longrightarrow>
           (discovery_time (f l) = discovery_time l \<or> 1 \<le> discovery_time (f l)) \<and>
           (finish_time (f l) = finish_time l \<or> 1 \<le> finish_time (f l))"
  shows "clock_ok (assign v f visit)"
proof (cases "map_of visit v")
  case None
  with assms(1) show ?thesis by (simp add: assign_def)
next
  case (Some l)
  from map_of_times[OF Some] assms(1)
  have "discovery_time l = - 1 \<or> 1 \<le> discovery_time l" "finish_time l = - 1 \<or> 1 \<le> finish_time l"
    by (auto simp: clock_ok_def)
  with assms(2)[OF Some]
  have "discovery_time (f l) = - 1 \<or> 1 \<le> discovery_time (f l)"
    "finish_time (f l) = - 1 \<or> 1 \<le> finish_time (f l)"
    by auto
  with assms(1) times_update_subset[of v "f l" visit] Some show ?thesis
    by (auto simp: clock_ok_def assign_def)
qed

lemma clock_ok_discover: "clock_ok visit \<Longrightarrow> clock_ok (discover v visit)"
  unfolding discover_def Let_def
  using last_time_nonneg[of visit]
  by (intro clock_ok_assign clock_ok_log) simp_all

lemma clock_ok_finish: "clock_ok visit \<Longrightarrow> clock_ok (finish v visit)"
  unfolding finish_def
  using last_time_nonneg[of visit]
  by (intro clock_ok_assign) simp_all

lemma clock_ok_set_parent: "clock_ok visit \<Longrightarrow> clock_ok (set_parent v p visit)"
  unfolding set_parent_def
  by (intro clock_ok_assign clock_ok_log) simp_all

lemma dfs_neighbors_preserves:
  assumes P: "\<And>x v r v'. I v \<Longrightarrow> dfs n g x v = Some (r, v') \<Longrightarrow> I v'"
    and sp: "\<And>x p v. I v \<Longrightarrow> I (set_parent x p v)"
  shows "I v \<Longrightarrow> dfs_neighbors n g s ns v = Some (r, v') \<Longrightarrow> I v'"
proof (induction ns arbitrary: v)
  case Nil
  then show ?case by simp
next
  case (Cons x ns)
  show ?case
  proof (cases "is_discovered v x")
    case True
    with Cons.prems Cons.IH[of v] show ?thesis
      by (simp add: dfs_neighbors_Cons del: dfs_neighbors.simps)
  next
    case False
    from Cons.prems(2) False obtain r2 v2 where
      v2: "dfs n g x (set_parent x s v) = Some (r2, v2)"
      by (auto simp: dfs_neighbors_Cons simp del: dfs_neighbors.simps split: option.splits)
    from P[OF sp[OF Cons.prems(1)] v2] have I2: "I v2" .
    show ?thesis
    proof (cases r2)
      case (Inl e)
      with Cons.prems(2) False v2 I2 show ?thesis
        by (simp add: dfs_neighbors_Cons del: dfs_neighbors.simps)
    next
      case (Inr u)
      with Cons.prems(2) False v2 have "dfs_neighbors n g s ns v2 = Some (r, v')"
        by (simp add: dfs_neighbors_Cons del: dfs_neighbors.simps)
      from Cons.IH[OF I2 this] show ?thesis .
    qed
  qed
qed

lemma dfs_preserves:
  assumes di: "\<And>x v. I v \<Longrightarrow> I (discover x v)"
    and fi: "\<And>x v. I v \<Longrightarrow> I (finish x v)"
    and sp: "\<And>x p v. I v \<Longrightarrow> I (set_parent x p v)"
  shows "I v \<Longrightarrow> dfs n g s v = Some (r, v') \<Longrightarrow> I v'"
proof (induction n arbitrary: s v r v')
  case 0
  then show ?case by simp
next
  case (Suc n)
  show ?case
  proof (cases "is_empty g")
    case True
    with Suc.prems show ?thesis by (simp add: dfs_Suc del: dfs.simps)
  next
    case False
    show ?thesis
    proof (cases "adj g s")
      case (Inl e)
      with Suc.prems False di show ?thesis
        by (auto simp: dfs_Suc simp del: dfs.simps)
    next
      case (Inr ns)
      with Suc.prems(2) False obtain r3 v3 where
        v3: "dfs_neighbors n g s ns (discover s v) = Some (r3, v3)"
        by (auto simp: dfs_Suc simp del: dfs.simps split: option.splits)
      have "I v3"
        by (rule dfs_neighbors_preserves[where I = I, OF Suc.IH sp di[OF Suc.prems(1)] v3])
      with Suc.prems(2) False Inr v3 fi show ?thesis
        by (cases r3) (auto simp: dfs_Suc simp del: dfs.simps)
    qed
  qed
qed

lemma bfs_neighbors_preserves:
  assumes lg: "\<And>x v. I v \<Longrightarrow> I (snd (log x v))"
    and sp: "\<And>x p v. I v \<Longrightarrow> I (set_parent x p v)"
  shows "I v \<Longrightarrow> I (fst (bfs_neighbors source vertex ns v queue))"
proof (induction ns arbitrary: v queue)
  case Nil
  then show ?case by simp
next
  case (Cons n ns)
  from Cons.prems lg sp
  have "I (if is_None (parent_of v n) \<and> n \<noteq> source then set_parent n vertex v else snd (log n v))"
    by simp
  from Cons.IH[OF this] show ?case
    by (simp add: bfs_neighbors_Cons del: bfs_neighbors.simps)
qed

lemma bfs_loop_preserves:
  assumes lg: "\<And>x v. I v \<Longrightarrow> I (snd (log x v))"
    and sp: "\<And>x p v. I v \<Longrightarrow> I (set_parent x p v)"
    and di: "\<And>x v. I v \<Longrightarrow> I (discover x v)"
  shows "bfs_loop g source visit queue = Inr visit' \<Longrightarrow> I visit \<Longrightarrow> I visit'"
proof (induction g source visit queue rule: bfs_loop.induct)
  case (1 g source visit)
  then show ?case by simp
next
  case (2 g source visit vertex queue)
  show ?case
  proof (cases "is_discovered visit vertex")
    case True
    with "2.prems" "2.IH"(2) show ?thesis by simp
  next
    case False
    with "2.prems" obtain ns where ns: "adj g vertex = Inr ns"
      by (cases "adj g vertex") (simp_all add: Let_def)
    obtain visit2 queue2 where v2:
      "bfs_neighbors source vertex ns (discover vertex visit) queue = (visit2, queue2)"
      by (cases "bfs_neighbors source vertex ns (discover vertex visit) queue")
    with False ns "2.prems" have run: "bfs_loop g source visit2 queue2 = Inr visit'"
      by (simp add: Let_def)
    have "I visit2"
      using bfs_neighbors_preserves[where I = I, OF lg sp di[OF "2.prems"(2)],
          of source vertex ns vertex queue] v2
      by simp
    from "2.IH"(1)[OF False refl ns v2[symmetric] run this] show ?thesis .
  qed
qed

lemma last_time_clock_ok:
  assumes "\<forall>t \<in> times visit. t = - 1 \<or> 0 \<le> t"
  shows "last_time visit = (if times visit - {- 1} = {} then 0 else Max (times visit - {- 1}))"
proof (cases "times visit - {- 1} = {}")
  case True
  then have sub: "times visit \<subseteq> {- 1}" by blast
  have "Max (insert 0 (times visit)) = 0"
  proof (rule Max_eqI)
    show "finite (insert 0 (times visit))" by simp
    show "0 \<in> insert 0 (times visit)" by simp
    show "\<And>y. y \<in> insert 0 (times visit) \<Longrightarrow> y \<le> 0" using sub by auto
  qed
  with True show ?thesis by (simp add: last_time_Max)
next
  case False
  let ?T = "times visit - {- 1}"
  have fin: "finite ?T" by simp
  have nn: "\<forall>t \<in> ?T. 0 \<le> t" using assms by auto
  have "Max ?T = Max (insert 0 (times visit))"
  proof (rule Max_eqI)
    show "finite ?T" by fact
    show "Max (insert 0 (times visit)) \<in> ?T"
    proof -
      have m: "Max (insert 0 (times visit)) \<in> insert 0 (times visit)"
        by (rule Max_in) simp_all
      from False obtain t where t: "t \<in> ?T" by blast
      with nn have "0 \<le> t" by blast
      have "t \<le> Max (insert 0 (times visit))" using t by simp
      show ?thesis
      proof (cases "Max (insert 0 (times visit)) = 0")
        case True
        with \<open>t \<le> Max (insert 0 (times visit))\<close> \<open>0 \<le> t\<close> have "t = 0" by simp
        with t True show ?thesis by simp
      next
        case False
        with m have "Max (insert 0 (times visit)) \<in> times visit" by blast
        moreover have "0 \<le> Max (insert 0 (times visit))" by simp
        then have "Max (insert 0 (times visit)) \<noteq> - 1" by linarith
        ultimately show ?thesis by blast
      qed
    qed
    show "\<And>y. y \<in> ?T \<Longrightarrow> y \<le> Max (insert 0 (times visit))" by simp
  qed
  with False show ?thesis by (simp only: last_time_Max if_False)
qed

section \<open>Parents and finish times under \<open>bfs\<close>\<close>

lemma bfs_run:
  assumes "wf_digraph g" and "has_vertex g source"
  shows "\<exists>visit'. bfs g source = Inr visit' \<and> bfs_loop g source Visit [source] = Inr visit'"
proof -
  from assms(2) have "\<not> is_empty g" "source \<in> verteces g"
    by (auto simp: is_empty_def has_vertex_def verteces_def)
  moreover from bfs_loop_total[of "[source]" g source Visit] assms
  obtain visit' where "bfs_loop g source Visit [source] = Inr visit'" by auto
  ultimately show ?thesis by (simp add: bfs_def)
qed





section \<open>The times a traversal writes\<close>

lemma finite_newly: "finite {u. newly v v' u}"
proof (rule finite_subset)
  show "{u. newly v v' u} \<subseteq> fst ` set v'"
    by (auto simp: newly_def is_discovered_def map_of_eq_None_iff split: option.splits)
  show "finite (fst ` set v')" by simp
qed

lemma newly_Visit: "newly Visit w = is_discovered w"
  by (simp add: fun_eq_iff newly_def)

lemma ticks_refl: "ticks v v"
  by (simp add: ticks_def new_stamps_def newly_def)

lemma ticks_trans:
  assumes t1: "ticks v v2" and t2: "ticks v2 v'"
    and m1: "\<And>u. is_discovered v u \<Longrightarrow> is_discovered v2 u"
    and k2: "\<And>u. is_discovered v2 u \<Longrightarrow> dtime v' u = dtime v2 u \<and> ftime v' u = ftime v2 u"
  shows "ticks v v'"
proof -
  let ?A = "{u. newly v v2 u}" and ?B = "{u. newly v2 v' u}"
  have m2: "is_discovered v' u" if "is_discovered v2 u" for u
    using k2[OF that] that by (simp add: is_discovered_dtime)
  have n: "newly v v' u \<longleftrightarrow> newly v v2 u \<or> newly v2 v' u" for u
    using m1[of u] m2[of u] by (auto simp: newly_def)
  have N: "{u. newly v v' u} = ?A \<union> ?B"
    using n by blast
  have dj: "?A \<inter> ?B = {}" by (auto simp: newly_def)
  have c: "card {u. newly v v' u} = card ?A + card ?B"
    unfolding N by (rule card_Un_disjoint[OF finite_newly finite_newly dj])
  from t1 have s1: "new_stamps v v2 = {last_time v + 1 .. last_time v2}"
    and l1: "last_time v2 = last_time v + 2 * int (card ?A)" by (simp_all add: ticks_def)
  from t2 have s2: "new_stamps v2 v' = {last_time v2 + 1 .. last_time v'}"
    and l2: "last_time v' = last_time v2 + 2 * int (card ?B)" by (simp_all add: ticks_def)
  have keep: "dtime v' u = dtime v2 u \<and> ftime v' u = ftime v2 u" if "newly v v2 u" for u
    using that by (intro k2) (simp add: newly_def)
  have "new_stamps v v' = new_stamps v v2 \<union> new_stamps v2 v'"
  proof (intro set_eqI iffI)
    fix t assume "t \<in> new_stamps v v'"
    then obtain u where u: "newly v v' u" "t = dtime v' u \<or> t = ftime v' u"
      by (auto simp: new_stamps_def)
    show "t \<in> new_stamps v v2 \<union> new_stamps v2 v'"
    proof (cases "newly v v2 u")
      case True
      with keep[OF True] u(2) have "t \<in> new_stamps v v2"
        by (auto simp: new_stamps_def)
      then show ?thesis by simp
    next
      case False
      with u(1) have "newly v2 v' u" by (simp add: n)
      with u(2) have "t \<in> new_stamps v2 v'" by (auto simp: new_stamps_def)
      then show ?thesis by simp
    qed
  next
    fix t assume "t \<in> new_stamps v v2 \<union> new_stamps v2 v'"
    then consider "t \<in> new_stamps v v2" | "t \<in> new_stamps v2 v'" by blast
    then show "t \<in> new_stamps v v'"
    proof cases
      case 1
      then obtain u where u: "newly v v2 u" "t = dtime v2 u \<or> t = ftime v2 u"
        by (auto simp: new_stamps_def)
      with keep[OF u(1)] have "newly v v' u \<and> (t = dtime v' u \<or> t = ftime v' u)"
        by (auto simp: n)
      then show ?thesis unfolding new_stamps_def by blast
    next
      case 2
      then obtain u where u: "newly v2 v' u" "t = dtime v' u \<or> t = ftime v' u"
        by (auto simp: new_stamps_def)
      then have "newly v v' u \<and> (t = dtime v' u \<or> t = ftime v' u)"
        by (auto simp: n)
      then show ?thesis unfolding new_stamps_def by blast
    qed
  qed
  also have "\<dots> = {last_time v + 1 .. last_time v'}"
    unfolding s1 s2 using l1 l2 by auto
  finally have "new_stamps v v' = {last_time v + 1 .. last_time v'}" .
  moreover have "last_time v' = last_time v + 2 * int (card {u. newly v v' u})"
    using l1 l2 c by simp
  ultimately show ?thesis by (simp add: ticks_def)
qed

lemma ticks_set_parent:
  assumes "ticks (set_parent x p v) v'"
  shows "ticks v v'"
proof -
  have "newly (set_parent x p v) v' = newly v v'"
    by (simp add: fun_eq_iff newly_def is_discovered_dtime dtime_set_parent)
  with assms show ?thesis
    by (simp add: ticks_def new_stamps_def last_time_set_parent)
qed

lemma ticks_finish:
  assumes und: "\<not> is_discovered v s"
    and t: "ticks (discover s v) v3"
    and ks: "dtime v3 s = dtime (discover s v) s"
  shows "ticks v (finish s v3)"
proof -
  let ?v2 = "discover s v" and ?v' = "finish s v3"
  let ?B = "{u. newly ?v2 v3 u}"
  have L2: "last_time ?v2 = last_time v + 1" by (rule last_time_discover)
  have ds3: "dtime v3 s = last_time v + 1" using ks by (simp add: dtime_discover)
  have disc3: "is_discovered v3 s"
    using ds3 last_time_nonneg[of v] by (simp add: is_discovered_dtime)
  have d': "dtime ?v' u = dtime v3 u" for u by (rule dtime_finish)
  have f': "ftime ?v' u = (if u = s then last_time v3 + 1 else ftime v3 u)" for u
    using disc3 by (rule ftime_finish)
  have L': "last_time ?v' = last_time v3 + 1"
    using disc3 by (rule last_time_finish)
  have n: "newly v ?v' u \<longleftrightarrow> u = s \<or> newly ?v2 v3 u" for u
    using und disc3
    by (auto simp: newly_def is_discovered_dtime d' dtime_discover)
  have ns: "\<not> newly ?v2 v3 s" by (simp add: newly_def is_discovered_discover)
  from t have s2: "new_stamps ?v2 v3 = {last_time ?v2 + 1 .. last_time v3}"
    and l2: "last_time v3 = last_time ?v2 + 2 * int (card ?B)" by (simp_all add: ticks_def)
  have N: "{u. newly v ?v' u} = insert s ?B" using n by blast
  have c: "card {u. newly v ?v' u} = Suc (card ?B)"
    unfolding N using ns by (simp add: finite_newly)
  have "new_stamps v ?v' = insert (last_time v + 1) (insert (last_time v3 + 1) (new_stamps ?v2 v3))"
  proof (intro set_eqI iffI)
    fix t assume "t \<in> new_stamps v ?v'"
    then obtain u where u: "newly v ?v' u" "t = dtime ?v' u \<or> t = ftime ?v' u"
      by (auto simp: new_stamps_def)
    show "t \<in> insert (last_time v + 1) (insert (last_time v3 + 1) (new_stamps ?v2 v3))"
    proof (cases "u = s")
      case True
      with u(2) show ?thesis by (auto simp: d' f' ds3)
    next
      case False
      with u(1) have "newly ?v2 v3 u" by (simp add: n)
      with u(2) False have "t \<in> new_stamps ?v2 v3"
        by (auto simp: new_stamps_def d' f')
      then show ?thesis by simp
    qed
  next
    fix t assume "t \<in> insert (last_time v + 1) (insert (last_time v3 + 1) (new_stamps ?v2 v3))"
    then consider "t = last_time v + 1" | "t = last_time v3 + 1" | "t \<in> new_stamps ?v2 v3"
      by blast
    then show "t \<in> new_stamps v ?v'"
    proof cases
      case 1
      then have "newly v ?v' s \<and> (t = dtime ?v' s \<or> t = ftime ?v' s)"
        by (simp add: n d' ds3)
      then show ?thesis unfolding new_stamps_def by blast
    next
      case 2
      then have "newly v ?v' s \<and> (t = dtime ?v' s \<or> t = ftime ?v' s)"
        by (simp add: n f')
      then show ?thesis unfolding new_stamps_def by blast
    next
      case 3
      then obtain u where u: "newly ?v2 v3 u" "t = dtime v3 u \<or> t = ftime v3 u"
        by (auto simp: new_stamps_def)
      from u(1) ns have "u \<noteq> s" by blast
      with u have "newly v ?v' u \<and> (t = dtime ?v' u \<or> t = ftime ?v' u)"
        by (simp add: n d' f')
      then show ?thesis unfolding new_stamps_def by blast
    qed
  qed
  also have "\<dots> = {last_time v + 1 .. last_time ?v'}"
    unfolding s2 L' L2 using l2 L2 by auto
  finally have "new_stamps v ?v' = {last_time v + 1 .. last_time ?v'}" .
  moreover have "last_time ?v' = last_time v + 2 * int (card {u. newly v ?v' u})"
    unfolding c L' using l2 L2 by simp
  ultimately show ?thesis by (simp add: ticks_def)
qed

lemma ticks_neighbors:
  assumes P: "\<And>x v v'. dfs n g x v = Some (Inr (), v') \<Longrightarrow> \<not> is_discovered v x \<Longrightarrow> ticks v v'"
  shows "dfs_neighbors n g s ns v = Some (Inr (), v') \<Longrightarrow> ticks v v'"
proof (induction ns arbitrary: v)
  case Nil
  then show ?case by (simp add: ticks_refl)
next
  case (Cons x ns)
  show ?case
  proof (cases "is_discovered v x")
    case True
    with Cons.prems have "dfs_neighbors n g s ns v = Some (Inr (), v')"
      by (simp add: dfs_neighbors_Cons del: dfs_neighbors.simps)
    then show ?thesis by (rule Cons.IH)
  next
    case False
    with Cons.prems obtain v2 where v2: "dfs n g x (set_parent x s v) = Some (Inr (), v2)"
      "dfs_neighbors n g s ns v2 = Some (Inr (), v')"
      by (auto simp: dfs_neighbors_Cons simp del: dfs_neighbors.simps
          split: option.splits sum.splits prod.splits)
    have u1: "\<not> is_discovered (set_parent x s v) x"
      using False by (simp add: is_discovered_dtime dtime_set_parent)
    from P[OF v2(1) u1] have t1: "ticks (set_parent x s v) v2" .
    from Cons.IH[OF v2(2)] have t2: "ticks v2 v'" .
    from dfs_post[OF v2(1) u1] have post: "dfs_post x (set_parent x s v) v2" .
    have ex: "explored s v2 v'"
      by (rule explored_neighbors[OF _ v2(2)]) (rule dfs_post)
    have k2: "dtime v' u = dtime v2 u \<and> ftime v' u = ftime v2 u" if "is_discovered v2 u" for u
    proof -
      from that have "\<not> newly v2 v' u" by (simp add: newly_def)
      with ex have "unchanged v2 v' u" by (simp add: explored_def)
      then show ?thesis by (simp add: unchanged_def)
    qed
    have "ticks (set_parent x s v) v'"
      by (rule ticks_trans[OF t1 t2 dfs_post_mono[OF post] k2])
    then show ?thesis by (rule ticks_set_parent)
  qed
qed

lemma dfs_ticks:
  "dfs n g s v = Some (Inr (), v') \<Longrightarrow> \<not> is_discovered v s \<Longrightarrow> ticks v v'"
proof (induction n arbitrary: s v v')
  case 0
  then show ?case by simp
next
  case (Suc n)
  from Suc.prems(1) obtain ns v3 where
    v3: "dfs_neighbors n g s ns (discover s v) = Some (Inr (), v3)"
    and v': "v' = finish s v3"
    by (auto simp: dfs_Suc simp del: dfs.simps
        split: if_splits option.splits sum.splits prod.splits)
  have t: "ticks (discover s v) v3"
    by (rule ticks_neighbors[OF _ v3]) (rule Suc.IH)
  have ex: "explored s (discover s v) v3"
    by (rule explored_neighbors[OF _ v3]) (rule dfs_post)
  have "\<not> newly (discover s v) v3 s" by (simp add: newly_def is_discovered_discover)
  with ex have "unchanged (discover s v) v3 s" by (simp add: explored_def)
  then have ks: "dtime v3 s = dtime (discover s v) s" by (simp add: unchanged_def)
  from ticks_finish[OF Suc.prems(2) t ks] v' show ?case by simp
qed

lemma bfs_ticks_refl: "bfs_ticks v v"
  by (simp add: bfs_ticks_def new_discoveries_def newly_def)

lemma bfs_ticks_step:
  assumes und: "\<not> is_discovered visit vertex"
    and v2: "bfs_neighbors source vertex ns (discover vertex visit) queue = (visit2, queue2)"
    and fr: "bfs_frame source visit2 visit'"
    and t: "bfs_ticks visit2 visit'"
  shows "bfs_ticks visit visit'"
proof -
  obtain w where w:
    "bfs_neighbors source vertex ns (discover vertex visit) queue = (w, queue @ ns)"
    "last_time w = last_time visit + 1"
    "\<And>u. dtime w u = (if u = vertex then last_time visit + 1 else dtime visit u)"
    "\<And>u. is_discovered w u \<longleftrightarrow> u = vertex \<or> is_discovered visit u"
    using bfs_expand[of source vertex ns visit queue] by blast
  from w(1) v2 have [simp]: "w = visit2" by simp
  let ?B = "{u. newly visit2 visit' u}"
  from fr have dk: "\<And>u. is_discovered visit2 u \<Longrightarrow> dtime visit' u = dtime visit2 u"
    by (simp add: bfs_frame_def)
  have m: "is_discovered visit' u" if "is_discovered visit2 u" for u
    using dk[OF that] that by (simp add: is_discovered_dtime)
  have n: "newly visit visit' u \<longleftrightarrow> u = vertex \<or> newly visit2 visit' u" for u
    using und w(4)[of u] m[of u] by (auto simp: newly_def)
  have nv: "\<not> newly visit2 visit' vertex" using w(4)[of vertex] by (simp add: newly_def)
  have dv: "dtime visit' vertex = last_time visit + 1"
    using dk[of vertex] w(3)[of vertex] w(4)[of vertex] by simp
  from t have s2: "new_discoveries visit2 visit' = {last_time visit2 + 1 .. last_time visit'}"
    and l2: "last_time visit' = last_time visit2 + int (card ?B)"
    by (simp_all add: bfs_ticks_def)
  have N: "{u. newly visit visit' u} = insert vertex ?B" using n by blast
  have c: "card {u. newly visit visit' u} = Suc (card ?B)"
    unfolding N using nv by (simp add: finite_newly)
  have "new_discoveries visit visit' = insert (last_time visit + 1) (new_discoveries visit2 visit')"
  proof (intro set_eqI iffI)
    fix x assume "x \<in> new_discoveries visit visit'"
    then obtain u where u: "newly visit visit' u" "x = dtime visit' u"
      by (auto simp: new_discoveries_def)
    show "x \<in> insert (last_time visit + 1) (new_discoveries visit2 visit')"
    proof (cases "u = vertex")
      case True
      with u(2) dv show ?thesis by simp
    next
      case False
      with u(1) have "newly visit2 visit' u" by (simp add: n)
      with u(2) have "x \<in> new_discoveries visit2 visit'"
        unfolding new_discoveries_def by blast
      then show ?thesis by simp
    qed
  next
    fix x assume "x \<in> insert (last_time visit + 1) (new_discoveries visit2 visit')"
    then consider "x = last_time visit + 1" | "x \<in> new_discoveries visit2 visit'" by blast
    then show "x \<in> new_discoveries visit visit'"
    proof cases
      case 1
      with dv have "newly visit visit' vertex \<and> x = dtime visit' vertex" by (simp add: n)
      then show ?thesis unfolding new_discoveries_def by blast
    next
      case 2
      then obtain u where "newly visit2 visit' u" "x = dtime visit' u"
        by (auto simp: new_discoveries_def)
      then have "newly visit visit' u \<and> x = dtime visit' u" by (simp add: n)
      then show ?thesis unfolding new_discoveries_def by blast
    qed
  qed
  also have "\<dots> = {last_time visit + 1 .. last_time visit'}"
    unfolding s2 using l2 w(2) by auto
  finally have "new_discoveries visit visit' = {last_time visit + 1 .. last_time visit'}" .
  moreover have "last_time visit' = last_time visit + int (card {u. newly visit visit' u})"
    unfolding c using l2 w(2) by simp
  ultimately show ?thesis by (simp add: bfs_ticks_def)
qed

lemma bfs_loop_ticks:
  "bfs_loop g source visit queue = Inr visit' \<Longrightarrow> bfs_ticks visit visit'"
proof (induction g source visit queue rule: bfs_loop.induct)
  case (1 g source visit)
  then show ?case by (simp add: bfs_ticks_refl)
next
  case (2 g source visit vertex queue)
  show ?case
  proof (cases "is_discovered visit vertex")
    case True
    with "2.prems" "2.IH"(2) show ?thesis by simp
  next
    case False
    with "2.prems" obtain ns where ns: "adj g vertex = Inr ns"
      by (cases "adj g vertex") (simp_all add: Let_def)
    obtain visit2 queue2 where v2:
      "bfs_neighbors source vertex ns (discover vertex visit) queue = (visit2, queue2)"
      by (cases "bfs_neighbors source vertex ns (discover vertex visit) queue")
    with False ns "2.prems" have run: "bfs_loop g source visit2 queue2 = Inr visit'"
      by (simp add: Let_def)
    from bfs_loop_frame[OF run] have fr: "bfs_frame source visit2 visit'" .
    from "2.IH"(1)[OF False refl ns v2[symmetric] run] have "bfs_ticks visit2 visit'" .
    from bfs_ticks_step[OF False v2 fr this] show ?thesis .
  qed
qed

section \<open>The logical clock\<close>

lemma bfs_source_first:
  assumes "bfs g s = Inr visit'"
  shows "dtime visit' s = 1" and "clock_ok visit'"
proof -
  from assms have run: "bfs_loop g s Visit [s] = Inr visit'"
    by (simp add: bfs_def split: if_splits)
  show "clock_ok visit'"
    by (rule bfs_loop_preserves[where I = clock_ok, OF _ _ _ run])
      (simp_all add: clock_ok_log clock_ok_set_parent clock_ok_discover clock_ok_Visit)
  from run obtain ns where ns: "adj g s = Inr ns"
    by (cases "adj g s") (simp_all add: bfs_loop_Cons del: bfs_loop.simps)
  obtain visit2 where v2:
    "bfs_neighbors s s ns (discover s Visit) [] = (visit2, ns)"
    "dtime visit2 s = 1" "is_discovered visit2 s"
    using bfs_expand[of s s ns Visit "[]"] by auto
  from run ns v2(1) have "bfs_loop g s visit2 ns = Inr visit'"
    by (simp add: bfs_loop_Cons del: bfs_loop.simps)
  from bfs_loop_frame[OF this] v2(3) have "dtime visit' s = dtime visit2 s"
    by (simp add: bfs_frame_def)
  with v2(2) show "dtime visit' s = 1" by simp
qed

lemma dfs_clock_ok: "clock_ok visit \<Longrightarrow> dfs n g s visit = Some (r, visit') \<Longrightarrow> clock_ok visit'"
  by (rule dfs_preserves[where I = clock_ok])
    (simp_all add: clock_ok_discover clock_ok_finish clock_ok_set_parent)

text \<open>
  C3: the clock of a fresh visit is 0; \<open>last_time()\<close> is the greatest time other than the
  sentinel that the visit holds, and 0 when there is none (no recorded time being
  negative apart from the sentinel, which is the case in every run from a fresh visit);
  no time in the visit is greater than the clock. The assignment of a discovery time
  (\<open>discover\<close>) and of a finish time (\<open>finish\<close>) write the clock plus one, and the clock is
  that value afterwards. A call of \<open>dfs\<close> on an undiscovered source that returns gives the
  source the clock plus one as its discovery time and the final clock as its finish time;
  the vertices discovered before keep their discovery times; every vertex discovered by
  the call gets a discovery time greater than the clock at the call, that is, greater
  than every time assigned before; and the times the call writes, two for each vertex it
  discovers, are exactly the integers from the clock at the call plus one up to the final
  clock, which is the clock at the call plus twice the number of these vertices: no
  integer is skipped and none is used twice, so every write is the clock plus one. The
  same holds from any state of the loop of \<open>bfs\<close> to its end, with one time for each vertex.
  On a fresh visit the source gets the discovery time 1 and the times are the integers
  from 1 on.
\<close>

theorem clock_strictly_increasing:
  "last_time Visit = 0 \<and>
   ((\<forall>t \<in> times visit. t = - 1 \<or> 0 \<le> t) \<longrightarrow>
      last_time visit = (if times visit - {- 1} = {} then 0 else Max (times visit - {- 1}))) \<and>
   (\<forall>u. dtime visit u \<le> last_time visit \<and> ftime visit u \<le> last_time visit) \<and>
   dtime (discover v visit) v = last_time visit + 1 \<and>
   last_time (discover v visit) = last_time visit + 1 \<and>
   (is_discovered visit v \<longrightarrow>
      ftime (finish v visit) v = last_time visit + 1 \<and>
      last_time (finish v visit) = last_time visit + 1) \<and>
   (\<forall>visit'. dfs n g s visit = Some (Inr (), visit') \<and> \<not> is_discovered visit s \<longrightarrow>
      dtime visit' s = last_time visit + 1 \<and>
      ftime visit' s = last_time visit' \<and>
      (\<forall>u. is_discovered visit u \<longrightarrow> dtime visit' u = dtime visit u) \<and>
      (\<forall>u. \<not> is_discovered visit u \<and> is_discovered visit' u \<longrightarrow>
         last_time visit < dtime visit' u \<and> dtime visit' u < ftime visit' u \<and>
         ftime visit' u \<le> last_time visit') \<and>
      new_stamps visit visit' = {last_time visit + 1 .. last_time visit'} \<and>
      last_time visit' = last_time visit + 2 * int (card {u. newly visit visit' u}) \<and>
      (clock_ok visit \<longrightarrow> clock_ok visit')) \<and>
   (\<forall>visit'. bfs_loop gb sb vb queue = Inr visit' \<longrightarrow>
      (\<forall>u. is_discovered vb u \<longrightarrow> dtime visit' u = dtime vb u) \<and>
      (\<forall>u. \<not> is_discovered vb u \<and> is_discovered visit' u \<longrightarrow>
         last_time vb < dtime visit' u) \<and>
      new_discoveries vb visit' = {last_time vb + 1 .. last_time visit'} \<and>
      last_time visit' = last_time vb + int (card {u. newly vb visit' u}) \<and>
      (clock_ok vb \<longrightarrow> clock_ok visit')) \<and>
   (\<forall>visit'. dfs n g s Visit = Some (Inr (), visit') \<longrightarrow>
      dtime visit' s = 1 \<and> clock_ok visit' \<and>
      new_stamps Visit visit' = {1 .. 2 * int (card {u. is_discovered visit' u})}) \<and>
   (\<forall>visit'. bfs gb sb = Inr visit' \<longrightarrow>
      dtime visit' sb = 1 \<and> clock_ok visit' \<and>
      new_discoveries Visit visit' = {1 .. int (card {u. is_discovered visit' u})})"
proof -
  have c1: "last_time Visit = 0" by simp
  have c2: "(\<forall>t \<in> times visit. t = - 1 \<or> 0 \<le> t) \<longrightarrow>
      last_time visit = (if times visit - {- 1} = {} then 0 else Max (times visit - {- 1}))"
    using last_time_clock_ok[of visit] by blast
  have c3: "\<forall>u. dtime visit u \<le> last_time visit \<and> ftime visit u \<le> last_time visit"
    by (simp add: dtime_le_last_time ftime_le_last_time)
  have c4: "dtime (discover v visit) v = last_time visit + 1"
    "last_time (discover v visit) = last_time visit + 1"
    by (simp_all add: dtime_discover last_time_discover)
  have c5: "is_discovered visit v \<longrightarrow>
      ftime (finish v visit) v = last_time visit + 1 \<and>
      last_time (finish v visit) = last_time visit + 1"
    by (simp add: ftime_finish last_time_finish)
  have c6: "dtime visit' s = last_time visit + 1 \<and>
      ftime visit' s = last_time visit' \<and>
      (\<forall>u. is_discovered visit u \<longrightarrow> dtime visit' u = dtime visit u) \<and>
      (\<forall>u. \<not> is_discovered visit u \<and> is_discovered visit' u \<longrightarrow>
         last_time visit < dtime visit' u \<and> dtime visit' u < ftime visit' u \<and>
         ftime visit' u \<le> last_time visit') \<and>
      new_stamps visit visit' = {last_time visit + 1 .. last_time visit'} \<and>
      last_time visit' = last_time visit + 2 * int (card {u. newly visit visit' u}) \<and>
      (clock_ok visit \<longrightarrow> clock_ok visit')"
    if a: "dfs n g s visit = Some (Inr (), visit') \<and> \<not> is_discovered visit s" for visit visit'
  proof -
    from a dfs_post[of n g s visit visit'] have post: "dfs_post s visit visit'" by blast
    from a dfs_ticks[of n g s visit visit'] have tk: "ticks visit visit'" by blast
    have p1: "dtime visit' s = last_time visit + 1" "ftime visit' s = last_time visit'"
      using post by (simp_all add: dfs_post_def)
    have p2: "dtime visit' u = dtime visit u" if "is_discovered visit u" for u
    proof -
      from that have "\<not> newly visit visit' u" by (simp add: newly_def)
      with post show ?thesis by (simp add: dfs_post_def unchanged_def)
    qed
    have p3: "last_time visit < dtime visit' u \<and> dtime visit' u < ftime visit' u \<and>
         ftime visit' u \<le> last_time visit'"
      if "\<not> is_discovered visit u \<and> is_discovered visit' u" for u
    proof -
      from that have "newly visit visit' u" by (simp add: newly_def)
      with post show ?thesis by (simp add: dfs_post_def stamped_def)
    qed
    have p4: "new_stamps visit visit' = {last_time visit + 1 .. last_time visit'}"
      "last_time visit' = last_time visit + 2 * int (card {u. newly visit visit' u})"
      using tk by (simp_all add: ticks_def)
    have p5: "clock_ok visit \<longrightarrow> clock_ok visit'"
      using a dfs_clock_ok[of visit n g s "Inr ()" visit'] by blast
    show ?thesis
      apply (intro conjI allI impI)
      subgoal by (rule p1(1))
      subgoal by (rule p1(2))
      subgoal by (rule p2)
      subgoal using p3 by blast
      subgoal using p3 by blast
      subgoal using p3 by blast
      subgoal by (rule p4(1))
      subgoal by (rule p4(2))
      subgoal using p5 by blast
      done
  qed
  have c7: "(\<forall>u. is_discovered vb u \<longrightarrow> dtime visit' u = dtime vb u) \<and>
      (\<forall>u. \<not> is_discovered vb u \<and> is_discovered visit' u \<longrightarrow>
         last_time vb < dtime visit' u) \<and>
      new_discoveries vb visit' = {last_time vb + 1 .. last_time visit'} \<and>
      last_time visit' = last_time vb + int (card {u. newly vb visit' u}) \<and>
      (clock_ok vb \<longrightarrow> clock_ok visit')"
    if a: "bfs_loop gb sb vb queue = Inr visit'" for vb queue visit'
  proof -
    from bfs_loop_frame[OF a] have fr: "bfs_frame sb vb visit'" .
    from bfs_loop_ticks[OF a] have tk: "bfs_ticks vb visit'" .
    have ck: "clock_ok vb \<longrightarrow> clock_ok visit'"
      using bfs_loop_preserves[where I = clock_ok, OF _ _ _ a]
      by (simp add: clock_ok_log clock_ok_set_parent clock_ok_discover)
    from fr tk ck show ?thesis by (simp add: bfs_frame_def bfs_ticks_def)
  qed
  have c8: "dtime visit' s = 1 \<and> clock_ok visit' \<and>
      new_stamps Visit visit' = {1 .. 2 * int (card {u. is_discovered visit' u})}"
    if a: "dfs n g s Visit = Some (Inr (), visit')" for visit'
    using c6[of Visit visit'] a by (simp add: clock_ok_Visit newly_Visit)
  have c9: "dtime visit' sb = 1 \<and> clock_ok visit' \<and>
      new_discoveries Visit visit' = {1 .. int (card {u. is_discovered visit' u})}"
    if a: "bfs gb sb = Inr visit'" for visit'
  proof -
    from a have run: "bfs_loop gb sb Visit [sb] = Inr visit'"
      by (simp add: bfs_def split: if_splits)
    from c7[OF run] bfs_source_first[OF a] show ?thesis by (simp add: newly_Visit)
  qed
  from c1 c2 c3 c4 c5 show ?thesis
    using c6[of visit] c7[of vb queue] c8 c9 by (intro conjI allI impI) blast+
qed

theorem clock_strictly_increasing_witness:
  "last_time [(1::nat, \<lparr>log_vertex = 1, discovery_time = 1, finish_time = 4, parent = None,
                          distance = None\<rparr>),
              (2, \<lparr>log_vertex = 2, discovery_time = 2, finish_time = 3, parent = Some 1,
                     distance = None\<rparr>)] = 4 \<and>
   dtime (discover (1::nat) Visit) 1 = 1 \<and>
   ftime (finish 1 (discover (1::nat) Visit)) 1 = 2 \<and>
   last_time (finish 1 (discover (1::nat) Visit)) = 2 \<and>
   (\<exists>visit'. dfs 2 [(1::nat, [2]), (2, [])] 1 Visit = Some (Inr (), visit') \<and>
      dtime visit' 1 = 1 \<and> ftime visit' 1 = last_time visit' \<and> clock_ok visit' \<and>
      new_stamps Visit visit' = {1 .. last_time visit'} \<and>
      last_time visit' = 2 * int (card {u. is_discovered visit' u})) \<and>
   (\<exists>visit'. bfs_loop [(Some (1::nat), [Some 2]), (Some 2, [])] (Some 1) Visit [Some 1]
        = Inr visit' \<and> clock_ok visit' \<and>
      new_discoveries Visit visit' = {1 .. last_time visit'} \<and>
      last_time visit' = int (card {u. is_discovered visit' u})) \<and>
   (\<exists>visit'. bfs [(Some (1::nat), [Some 2]), (Some 2, [])] (Some 1) = Inr visit' \<and>
      dtime visit' (Some 1) = 1 \<and> clock_ok visit')"
proof -
  let ?V = "[(1::nat, \<lparr>log_vertex = 1, discovery_time = 1, finish_time = 4, parent = None,
                          distance = None\<rparr>),
              (2, \<lparr>log_vertex = 2, discovery_time = 2, finish_time = 3, parent = Some 1,
                     distance = None\<rparr>)]"
  let ?g = "[(1::nat, [2]), (2, [])]"
  let ?gb = "[(Some (1::nat), [Some 2]), (Some 2, [])]"
  note a = clock_strictly_increasing[where visit = ?V and v = 1 and n = 2 and g = ?g and s = 1
      and gb = ?gb and sb = "Some 1" and vb = Visit and queue = "[Some 1]"]
  note b = clock_strictly_increasing[where visit = "Visit :: nat visit" and v = 1 and n = 2
      and g = ?g and s = 1 and gb = ?gb and sb = "Some 1" and vb = Visit and queue = "[Some 1]"]
  note c = clock_strictly_increasing[where visit = "discover (1::nat) Visit" and v = 1 and n = 2
      and g = ?g and s = 1 and gb = ?gb and sb = "Some 1" and vb = Visit and queue = "[Some 1]"]
  have tv: "times ?V = {1, 4, 2, 3}"
    by (auto simp: times_def)
  then have "\<forall>t \<in> times ?V. t = - 1 \<or> 0 \<le> t" by simp
  with a have "last_time ?V = (if times ?V - {- 1} = {} then 0 else Max (times ?V - {- 1}))"
    by blast
  then have w1: "last_time ?V = 4" unfolding tv by simp
  from b have w2: "dtime (discover (1::nat) Visit) 1 = 1"
    and l1: "last_time (discover (1::nat) Visit) = 1"
    by simp_all
  have "is_discovered (discover (1::nat) Visit) 1" by (simp add: is_discovered_discover)
  with c l1 have w3: "ftime (finish 1 (discover (1::nat) Visit)) 1 = 2"
    and w4: "last_time (finish 1 (discover (1::nat) Visit)) = 2"
    by simp_all
  have wf: "wf_digraph ?g" and hv: "has_vertex ?g 1"
    by (simp_all add: wf_digraph_def has_vertex_def)
  have wfb: "wf_digraph ?gb" and hvb: "has_vertex ?gb (Some 1)"
    by (simp_all add: wf_digraph_def has_vertex_def)
  have "card (undiscovered ?g Visit) \<le> 2"
    using card_undiscovered_le[of ?g Visit] by simp
  from dfs_total[OF wf hv _ this] obtain vd where
    vd: "dfs 2 ?g 1 Visit = Some (Inr (), vd)" by auto
  have nd: "\<not> is_discovered (Visit :: nat visit) 1" by simp
  from b vd nd have d1: "dtime vd 1 = last_time (Visit :: nat visit) + 1"
    and d2: "ftime vd 1 = last_time vd"
    and d3: "new_stamps Visit vd = {last_time (Visit :: nat visit) + 1 .. last_time vd}"
    and d4: "last_time vd = last_time (Visit :: nat visit) + 2 * int (card {u. newly Visit vd u})"
    and d5: "clock_ok (Visit :: nat visit) \<longrightarrow> clock_ok vd"
    by blast+
  from d1 d2 d3 d4 d5 have w5: "dtime vd 1 = 1 \<and> ftime vd 1 = last_time vd \<and> clock_ok vd \<and>
      new_stamps Visit vd = {1 .. last_time vd} \<and>
      last_time vd = 2 * int (card {u. is_discovered vd u})"
    by (simp add: clock_ok_Visit newly_Visit)
  from bfs_run[OF wfb hvb] obtain vb where
    vb: "bfs ?gb (Some 1) = Inr vb" "bfs_loop ?gb (Some 1) Visit [Some 1] = Inr vb" by blast
  from b vb(2) have e1: "new_discoveries Visit vb = {last_time (Visit :: nat option visit) + 1 .. last_time vb}"
    and e2: "last_time vb = last_time (Visit :: nat option visit) + int (card {u. newly Visit vb u})"
    and e3: "clock_ok (Visit :: nat option visit) \<longrightarrow> clock_ok vb"
    by blast+
  from e1 e2 e3 have w6: "clock_ok vb \<and> new_discoveries Visit vb = {1 .. last_time vb} \<and>
      last_time vb = int (card {u. is_discovered vb u})"
    by (simp add: clock_ok_Visit newly_Visit)
  from b vb(1) have w7: "dtime vb (Some 1) = 1 \<and> clock_ok vb" by blast
  from vd w5 have x5: "\<exists>visit'. dfs 2 ?g 1 Visit = Some (Inr (), visit') \<and>
      dtime visit' 1 = 1 \<and> ftime visit' 1 = last_time visit' \<and> clock_ok visit' \<and>
      new_stamps Visit visit' = {1 .. last_time visit'} \<and>
      last_time visit' = 2 * int (card {u. is_discovered visit' u})"
    by blast
  from vb(2) w6 have x6: "\<exists>visit'. bfs_loop ?gb (Some 1) Visit [Some 1] = Inr visit' \<and>
      clock_ok visit' \<and> new_discoveries Visit visit' = {1 .. last_time visit'} \<and>
      last_time visit' = int (card {u. is_discovered visit' u})"
    by blast
  from vb(1) w7 have x7: "\<exists>visit'. bfs ?gb (Some 1) = Inr visit' \<and>
      dtime visit' (Some 1) = 1 \<and> clock_ok visit'"
    by blast
  from w1 w2 w3 w4 x5 x6 x7 show ?thesis by (intro conjI)
qed

section \<open>Distances\<close>












lemma dist_of_log [simp]: "dist_of (snd (log v visit)) u = dist_of visit u"
  by (simp add: dist_of_def map_of_log VertexLog_def split: option.splits)

lemma dist_of_discover [simp]: "dist_of (discover v visit) u = dist_of visit u"
  by (simp add: dist_of_def discover_def map_of_assign map_of_log VertexLog_def split: option.splits)

lemma dist_of_set_parent [simp]: "dist_of (set_parent v p visit) u = dist_of visit u"
  by (simp add: dist_of_def set_parent_def map_of_assign map_of_log VertexLog_def
      split: option.splits)



lemma dtime_set_distance [simp]: "dtime (set_distance v d visit) u = dtime visit u"
  by (simp add: dtime_def set_distance_def map_of_assign split: option.splits)

lemma ftime_set_distance [simp]: "ftime (set_distance v d visit) u = ftime visit u"
  by (simp add: ftime_def set_distance_def map_of_assign split: option.splits)

lemma parent_of_set_distance [simp]: "parent_of (set_distance v d visit) u = parent_of visit u"
  by (simp add: parent_of_def set_distance_def map_of_assign split: option.splits)


lemma map_of_log_other: "map_of (snd (log v visit)) u \<noteq> None \<longleftrightarrow> u = v \<or> map_of visit u \<noteq> None"
  by (auto simp: map_of_log)


lemma last_time_set_distance [simp]: "last_time (set_distance v d visit) = last_time visit"
  by (simp add: set_distance_def last_time_assign_same)














lemma dist_of_Visit [simp]: "dist_of Visit u = None"
  by (simp add: dist_of_def Visit_def)
















end
